theory Spec2Isabelle
  imports Main
begin

section \<open>The log scanner (src/utils/log_scanner.js)\<close>

subsection \<open>Data\<close>

type_synonym path = string
type_synonym errno = string

definition POLLING_INTERVAL :: nat where
  "POLLING_INTERVAL = 10 * 1000"

definition MAX_FILE_READ_SIZE :: nat where
  "MAX_FILE_READ_SIZE = 256 * 1024"

text \<open>
  One entry of \<^verbatim>\<open>_stats\<close>: the object \<^verbatim>\<open>{size, mtime, offset}\<close> stored per path.
  \<^verbatim>\<open>size\<close> is written \<open>fsize\<close> (\<open>size\<close> is a constant of HOL); \<open>mtime\<close> is the number
  that \<^verbatim>\<open>+stat.mtime\<close> yields. \<^verbatim>\<open>offset\<close> is \<open>None\<close> when the entry was written with
  \<^verbatim>\<open>offset: undefined\<close>.
\<close>

record logstat =
  fsize :: nat
  mtime :: nat
  offset :: "nat option"

text \<open>
  \<^verbatim>\<open>_stats\<close> and the batch \<^verbatim>\<open>files\<close> are plain objects (\<^verbatim>\<open>{}\<close>) indexed by the path; a map
  holds the properties they have been assigned. Reading \<^verbatim>\<open>stats[log]\<close> for a path that
  has not been assigned follows the prototype chain.
  \<^item> The names of the members of \<^verbatim>\<open>Object.prototype\<close> yield that member: a function or
    an object, which is truthy and has no \<^verbatim>\<open>size\<close>, \<^verbatim>\<open>mtime\<close> or \<^verbatim>\<open>offset\<close>.
  \<^item> \<^verbatim>\<open>__proto__\<close> is the accessor of the prototype itself: assigning an entry to
    \<^verbatim>\<open>stats["__proto__"]\<close> makes that entry the prototype of \<^verbatim>\<open>stats\<close>, with
    \<^verbatim>\<open>Object.prototype\<close> behind it, and reading \<^verbatim>\<open>stats["__proto__"]\<close> yields the entry
    again. So the binding of \<^verbatim>\<open>__proto__\<close> in the map is the prototype that has been
    assigned. The paths \<^verbatim>\<open>size\<close>, \<^verbatim>\<open>mtime\<close> and \<^verbatim>\<open>offset\<close> then inherit its fields: a
    number, truthy unless it is 0, a date, which is truthy, and a number or undefined.
  \<^item> Assigning a string to \<^verbatim>\<open>files["__proto__"]\<close> is ignored.
  What \<^verbatim>\<open>stats[log]\<close> yields is an entry, another truthy value (it has none of the three
  fields), or a falsy value.
\<close>

definition Object_prototype :: "string list" where
  "Object_prototype =
     [''constructor'', ''hasOwnProperty'', ''isPrototypeOf'', ''propertyIsEnumerable'',
      ''toLocaleString'', ''toString'', ''valueOf'', ''__defineGetter__'', ''__defineSetter__'',
      ''__lookupGetter__'', ''__lookupSetter__'', ''__proto__'']"

datatype property = Falsy | Member | Stat logstat

definition stats_get :: "(string \<rightharpoonup> logstat) \<Rightarrow> string \<Rightarrow> property" where
  "stats_get stats log =
     (case stats log of
        Some stat \<Rightarrow> Stat stat
      | None \<Rightarrow>
          if log \<in> set Object_prototype then Member
          else
            (case stats ''__proto__'' of
               None \<Rightarrow> Falsy
             | Some proto \<Rightarrow>
                 if log = ''size'' then (if fsize proto = 0 then Falsy else Member)
                 else if log = ''mtime'' then Member
                 else if log = ''offset''
                 then (case offset proto of
                         None \<Rightarrow> Falsy
                       | Some off \<Rightarrow> if off = 0 then Falsy else Member)
                 else Falsy))"

definition files_put :: "(string \<rightharpoonup> string) \<Rightarrow> string \<Rightarrow> string \<Rightarrow> (string \<rightharpoonup> string)" where
  "files_put files log output = (if log = ''__proto__'' then files else files(log \<mapsto> output))"

text \<open>What \<^verbatim>\<open>fs.statSync\<close> returns: the fields of \<^verbatim>\<open>fs.Stats\<close> the scanner reads.\<close>

record fs_Stats =
  isFile :: bool
  st_size :: nat
  st_mtime :: nat

text \<open>
  The file system as one scan cycle sees it. For every path: what \<^verbatim>\<open>fs.statSync\<close> does
  (throws or returns), whether \<^verbatim>\<open>fs.open\<close> fails, the bytes of the file, at which
  positions \<^verbatim>\<open>fs.read\<close> fails, and whether \<^verbatim>\<open>fs.close\<close> fails. The size that stat
  reports and the length of the contents are separate fields: the file may change between
  the stat and the read.
\<close>

record file_node =
  statSync :: "errno + fs_Stats"
  open_err :: "errno option"
  contents :: "char list"
  read_err :: "nat \<Rightarrow> errno option"
  close_err :: "errno option"

type_synonym filesystem = "path \<Rightarrow> file_node"

text \<open>
  The two operations of Node's \<^verbatim>\<open>Buffer\<close> that \<^verbatim>\<open>readAll\<close> uses are parameters of the
  model: \<^verbatim>\<open>buffer.toString()\<close> (the decoding of a chunk of bytes as text) and
  \<^verbatim>\<open>new Buffer(size)\<close> (the bytes an allocated buffer holds before the read fills it).
\<close>

record node_env =
  toString :: "char list \<Rightarrow> string"
  newBuffer :: "nat \<Rightarrow> char list"

text \<open>The calls of \<^verbatim>\<open>debug(...)\<close>, one constructor per format string.\<close>

datatype dbg_msg =
    CannotStat path errno
  | LogsChanged
  | LogChanged path
  | NoFileStat path
  | OpenFailed path errno
  | ReadFailed path errno
  | CloseFailed path errno
  | CallbackFailed string

subsection \<open>Detection: the first loop of the timer callback in \<^verbatim>\<open>monitor\<close>\<close>

record detection =
  d_stats :: "path \<rightharpoonup> logstat"
  changedLogs :: "path list"
  d_dbg :: "dbg_msg list"

text \<open>
  The body of \<^verbatim>\<open>_.each(logs, function(log) {...})\<close>. \<^verbatim>\<open>prev = stats[log] || {offset: 0}\<close>
  is an entry; or a truthy value that is no entry, whose \<^verbatim>\<open>size\<close>, \<^verbatim>\<open>mtime\<close> and \<^verbatim>\<open>offset\<close>
  are undefined; or, for a falsy value, the object \<^verbatim>\<open>{offset: 0}\<close>, whose \<^verbatim>\<open>size\<close> and
  \<^verbatim>\<open>mtime\<close> are undefined. A field that is undefined is \<open>None\<close>: it is equal to no number,
  it is falsy, and \<^verbatim>\<open>stat.size > undefined\<close> is false.
\<close>

definition detect_log :: "filesystem \<Rightarrow> path \<Rightarrow> detection \<Rightarrow> detection" where
  "detect_log fs log d =
     (case statSync (fs log) of
        Inl e \<Rightarrow> d\<lparr>d_dbg := d_dbg d @ [CannotStat log e]\<rparr>
      | Inr stat \<Rightarrow>
          (let prev = stats_get (d_stats d) log;
               prev_size = (case prev of Stat p \<Rightarrow> Some (fsize p) | Member \<Rightarrow> None | Falsy \<Rightarrow> None);
               prev_mtime = (case prev of Stat p \<Rightarrow> Some (mtime p) | Member \<Rightarrow> None | Falsy \<Rightarrow> None);
               prev_offset = (case prev of Stat p \<Rightarrow> offset p | Member \<Rightarrow> None | Falsy \<Rightarrow> Some 0)
           in if \<not> isFile stat then d
              else if prev_size = Some (st_size stat) \<and> prev_mtime = Some (st_mtime stat) then d
              else
                (let prev_offset' =
                       (case prev_offset of
                          None \<Rightarrow> None
                        | Some off \<Rightarrow> if off \<noteq> 0 \<and> off > st_size stat then Some 0 else Some off);
                     d' = d\<lparr>d_stats := (d_stats d)(log \<mapsto>
                            \<lparr>fsize = st_size stat, mtime = st_mtime stat, offset = prev_offset'\<rparr>)\<rparr>
                 in if (case prev_offset' of None \<Rightarrow> False | Some off \<Rightarrow> st_size stat > off)
                    then d'\<lparr>changedLogs := changedLogs d' @ [log]\<rparr>
                    else d')))"

fun detect_each :: "filesystem \<Rightarrow> path list \<Rightarrow> detection \<Rightarrow> detection" where
  "detect_each fs [] d = d"
| "detect_each fs (log # logs) d = detect_each fs logs (detect_log fs log d)"

definition detect :: "filesystem \<Rightarrow> path list \<Rightarrow> (path \<rightharpoonup> logstat) \<Rightarrow> detection" where
  "detect fs logs stats =
     detect_each fs logs \<lparr>d_stats = stats, changedLogs = [], d_dbg = []\<rparr>"

subsection \<open>Reading: \<^verbatim>\<open>scanLogs\<close> and its inner functions\<close>

text \<open>
  \<^verbatim>\<open>fs.read(fd, buffer, 0, size, position, cb)\<close>: an error, or the number of bytes read
  together with the buffer afterwards (the bytes read, then what the buffer held before).
\<close>

definition fs_read :: "node_env \<Rightarrow> file_node \<Rightarrow> nat \<Rightarrow> nat \<Rightarrow> errno + (nat \<times> char list)" where
  "fs_read env fd n pos =
     (case read_err fd pos of
        Some e \<Rightarrow> Inl e
      | None \<Rightarrow>
          (let got = take n (drop pos (contents fd))
           in Inr (length got, got @ drop (length got) (take n (newBuffer env n)))))"

text \<open>
  \<^verbatim>\<open>readAll(fd, stat, cb, output)\<close> for an entry \<^verbatim>\<open>stat\<close>. The result is what \<^verbatim>\<open>cb\<close> receives
  (an error or the output) and the \<^verbatim>\<open>stat\<close> object as the reads have left it. With an
  offset that is undefined, \<^verbatim>\<open>stat.size - stat.offset\<close> is \<^verbatim>\<open>NaN\<close>, which is falsy: \<^verbatim>\<open>cb\<close>
  receives the output at once. Otherwise the difference is computed over the integers as
  in the source; when it is negative, allocating the buffer or the read throws and \<^verbatim>\<open>cb\<close>
  is never called: the result \<open>None\<close>.
\<close>

function readAll ::
  "node_env \<Rightarrow> file_node \<Rightarrow> logstat \<Rightarrow> string \<Rightarrow> ((errno + string) \<times> logstat) option" where
  "readAll env fd stat output =
     (case offset stat of
        None \<Rightarrow> Some (Inr output, stat)
      | Some off \<Rightarrow>
          (let size = int (fsize stat) - int off
           in if size = 0 then Some (Inr output, stat)
              else
                (let size' = min size (int MAX_FILE_READ_SIZE)
                 in if size' < 0 then None
                    else
                      (case fs_read env fd (nat size') off of
                         Inl err \<Rightarrow> Some (Inl err, stat)
                       | Inr (read, buffer) \<Rightarrow>
                           if read = 0 then Some (Inr output, stat)
                           else readAll env fd (stat\<lparr>offset := Some (off + read)\<rparr>)
                                  (output @ toString env buffer)))))"
  by pat_completeness auto
termination
  by (relation "measure (\<lambda>(env, fd, stat, output).
                   case offset stat of None \<Rightarrow> 0 | Some off \<Rightarrow> fsize stat - off)")
     (auto simp: min_def split: if_splits)

record scanning =
  s_stats :: "path \<rightharpoonup> logstat"
  files :: "path \<rightharpoonup> string"
  s_dbg :: "dbg_msg list"

text \<open>\<^verbatim>\<open>closeFdAndContinue\<close>: the debug message of a failing \<^verbatim>\<open>fs.close\<close>; then \<^verbatim>\<open>scan()\<close>.\<close>

definition closeFd :: "file_node \<Rightarrow> path \<Rightarrow> dbg_msg list" where
  "closeFd fd log = (case close_err fd of None \<Rightarrow> [] | Some err \<Rightarrow> [CloseFailed log err])"

text \<open>
  \<^verbatim>\<open>scan()\<close>, the recursion over \<^verbatim>\<open>logs[index++]\<close>. \<^verbatim>\<open>stat = stats[log]\<close> is the stored
  object itself, so what \<^verbatim>\<open>readAll\<close> adds to \<^verbatim>\<open>stat.offset\<close> is stored under the path
  whether or not the read ends in an error. For a truthy value that is no entry,
  \<^verbatim>\<open>stat.size - stat.offset\<close> is \<^verbatim>\<open>NaN\<close> and \<^verbatim>\<open>readAll\<close> hands the empty output to its callback
  without a read. The result at the end of the list is what \<^verbatim>\<open>cb(files)\<close> is called with;
  \<open>None\<close> when \<^verbatim>\<open>readAll\<close> throws.
\<close>

fun scan :: "node_env \<Rightarrow> filesystem \<Rightarrow> path list \<Rightarrow> scanning \<Rightarrow> scanning option" where
  "scan env fs [] s = Some s"
| "scan env fs (log # logs) s =
     (case stats_get (s_stats s) log of
        Falsy \<Rightarrow> scan env fs logs (s\<lparr>s_dbg := s_dbg s @ [NoFileStat log]\<rparr>)
      | Member \<Rightarrow>
          (case open_err (fs log) of
             Some err \<Rightarrow> scan env fs logs (s\<lparr>s_dbg := s_dbg s @ [OpenFailed log err]\<rparr>)
           | None \<Rightarrow>
               scan env fs logs
                 (s\<lparr>files := files_put (files s) log [],
                    s_dbg := s_dbg s @ closeFd (fs log) log\<rparr>))
      | Stat stat \<Rightarrow>
          (case open_err (fs log) of
             Some err \<Rightarrow> scan env fs logs (s\<lparr>s_dbg := s_dbg s @ [OpenFailed log err]\<rparr>)
           | None \<Rightarrow>
               (case readAll env (fs log) stat [] of
                  None \<Rightarrow> None
                | Some (Inl err, stat') \<Rightarrow>
                    scan env fs logs
                      (s\<lparr>s_stats := (s_stats s)(log \<mapsto> stat'),
                         s_dbg := s_dbg s @ [ReadFailed log err] @ closeFd (fs log) log\<rparr>)
                | Some (Inr output, stat') \<Rightarrow>
                    scan env fs logs
                      (s\<lparr>s_stats := (s_stats s)(log \<mapsto> stat'),
                         files := files_put (files s) log output,
                         s_dbg := s_dbg s @ closeFd (fs log) log\<rparr>))))"

definition scanLogs ::
  "node_env \<Rightarrow> filesystem \<Rightarrow> path list \<Rightarrow> (path \<rightharpoonup> logstat) \<Rightarrow> scanning option" where
  "scanLogs env fs logs stats = scan env fs logs \<lparr>s_stats = stats, files = Map.empty, s_dbg = []\<rparr>"

subsection \<open>The scanner object\<close>

text \<open>
  The fields of a \<^verbatim>\<open>LogScanner\<close> and the parts of its surroundings that its methods
  act on.
  \<^item> \<^verbatim>\<open>_stats\<close> is a reference to an object that the timer callback keeps in a local
    variable and updates in place, also while \<^verbatim>\<open>_stats\<close> may be given another object
    (\<^verbatim>\<open>_brainStatsChanged\<close>, \<^verbatim>\<open>setBrain\<close>). So \<open>stats\<close> is an address and \<open>heap\<close>
    holds the objects.
  \<^item> \<open>brain\<close> is \<^verbatim>\<open>_brainKey\<close> when \<^verbatim>\<open>_brain\<close> is set. The class of the brain is not
    part of the sources; \<open>brain_sets\<close> lists the calls \<^verbatim>\<open>_brain.set(key, value)\<close> made.
  \<^item> \<open>pending\<close> are the timeouts of the event loop that have neither fired nor been
    cleared, each a handle and its delay; \<open>next_timer\<close> is the next handle that
    \<^verbatim>\<open>setTimeout\<close> returns.
  \<^item> \<open>scans\<close> are the calls of \<^verbatim>\<open>scanLogs\<close> that have started and not yet called their
    callback: the list \<^verbatim>\<open>changedLogs\<close> and the \<^verbatim>\<open>stats\<close> object each one holds.
  \<^item> \<open>cb_calls\<close> lists the batches \<^verbatim>\<open>_cb\<close> was called with, \<open>dbg\<close> the debug output.
  \<^verbatim>\<open>_cb\<close> itself is set by the constructor only and is a parameter of the functions
  that call it.
\<close>

datatype brain_value = BLogs "path list" | BStats "path \<rightharpoonup> logstat"

record scanner =
  logs :: "path list"
  stats :: nat
  timer :: "nat option"
  brain :: "string option"
  heap :: "nat \<Rightarrow> (path \<rightharpoonup> logstat)"
  next_ref :: nat
  brain_sets :: "(string \<times> brain_value) list"
  pending :: "(nat \<times> nat) list"
  next_timer :: nat
  scans :: "(path list \<times> nat) list"
  cb_calls :: "(path \<rightharpoonup> string) list"
  dbg :: "dbg_msg list"

text \<open>\<^verbatim>\<open>new LogScanner(cb)\<close>, in an event loop that has handed out no timer yet.\<close>

definition LogScanner :: scanner where
  "LogScanner =
     \<lparr>logs = [], stats = 0, timer = None, brain = None, heap = (\<lambda>r. Map.empty), next_ref = 1,
      brain_sets = [], pending = [], next_timer = 0, scans = [], cb_calls = [], dbg = []\<rparr>"

text \<open>The object \<^verbatim>\<open>this._stats\<close> refers to.\<close>

definition the_stats :: "scanner \<Rightarrow> (path \<rightharpoonup> logstat)" where
  "the_stats s = heap s (stats s)"

definition started :: "scanner \<Rightarrow> bool" where
  "started s = (timer s \<noteq> None)"

text \<open>
  \<^verbatim>\<open>monitor()\<close> up to the call of \<^verbatim>\<open>setTimeout\<close>; what the timeout runs is
  \<open>timer_fires\<close> below.
\<close>

definition monitor :: "scanner \<Rightarrow> scanner" where
  "monitor s =
     (case timer s of
        Some t \<Rightarrow> s
      | None \<Rightarrow>
          s\<lparr>timer := Some (next_timer s),
            pending := pending s @ [(next_timer s, POLLING_INTERVAL)],
            next_timer := Suc (next_timer s)\<rparr>)"

definition start :: "scanner \<Rightarrow> scanner" where
  "start s = (if started s then s else monitor s)"

definition clearTimeout :: "nat \<Rightarrow> scanner \<Rightarrow> scanner" where
  "clearTimeout t s = s\<lparr>pending := filter (\<lambda>p. fst p \<noteq> t) (pending s)\<rparr>"

definition stop :: "scanner \<Rightarrow> scanner" where
  "stop s =
     (let s' = (case timer s of Some t \<Rightarrow> clearTimeout t s | None \<Rightarrow> s)
      in s'\<lparr>timer := None\<rparr>)"

definition addLog :: "path \<Rightarrow> scanner \<Rightarrow> scanner" where
  "addLog log s =
     (if log \<in> set (logs s) then s
      else
        (let s' = s\<lparr>logs := logs s @ [log]\<rparr>
         in case brain s' of
              Some key \<Rightarrow> s'\<lparr>brain_sets := brain_sets s' @ [(key @ ''/logs'', BLogs (logs s'))]\<rparr>
            | None \<Rightarrow> s'))"

text \<open>
  \<^verbatim>\<open>removeLog\<close>: \<open>len\<close> is compared with \<^verbatim>\<open>this._logs.length\<close>, the length of the array
  that \<^verbatim>\<open>filter\<close> has left as it was, as the source writes it.
\<close>

definition removeLog :: "path \<Rightarrow> scanner \<Rightarrow> scanner" where
  "removeLog log s =
     (let len = length (logs s);
          logs' = filter (\<lambda>l. l \<noteq> log) (logs s)
      in case brain s of
           Some key \<Rightarrow>
             if len \<noteq> length (logs s)
             then s\<lparr>brain_sets := brain_sets s @ [(key @ ''/logs'', BLogs logs')]\<rparr>
             else s
         | None \<Rightarrow> s\<lparr>logs := logs'\<rparr>)"

definition removeAllLogs :: "scanner \<Rightarrow> scanner" where
  "removeAllLogs s =
     (case brain s of
        Some key \<Rightarrow> s\<lparr>brain_sets := brain_sets s @ [(key @ ''/logs'', BLogs [])]\<rparr>
      | None \<Rightarrow> s\<lparr>logs := []\<rparr>)"

text \<open>
  The listeners \<^verbatim>\<open>_brainLogsChanged\<close> and \<^verbatim>\<open>_brainStatsChanged\<close>; the argument is
  \<open>None\<close> for a falsy value. The object received is one the scanner has not seen: a new
  address.
\<close>

definition brainLogsChanged :: "path list option \<Rightarrow> scanner \<Rightarrow> scanner" where
  "brainLogsChanged v s = s\<lparr>logs := (case v of None \<Rightarrow> [] | Some ls \<Rightarrow> ls)\<rparr>"

definition brainStatsChanged :: "(path \<rightharpoonup> logstat) option \<Rightarrow> scanner \<Rightarrow> scanner" where
  "brainStatsChanged v s =
     s\<lparr>stats := next_ref s,
       heap := (heap s)(next_ref s := (case v of None \<Rightarrow> Map.empty | Some m \<Rightarrow> m)),
       next_ref := Suc (next_ref s)\<rparr>"

text \<open>
  \<^verbatim>\<open>setBrain(brain, key)\<close>; the two further arguments are what \<^verbatim>\<open>brain.get\<close> returns for
  \<^verbatim>\<open>key + "/stats"\<close> and \<^verbatim>\<open>key + "/logs"\<close>.
\<close>

definition setBrain ::
  "string \<Rightarrow> (path \<rightharpoonup> logstat) option \<Rightarrow> path list option \<Rightarrow> scanner \<Rightarrow> scanner" where
  "setBrain key got_stats got_logs s =
     brainLogsChanged got_logs (brainStatsChanged got_stats (s\<lparr>brain := Some key\<rparr>))"

text \<open>
  The caller's callback \<^verbatim>\<open>cb(files, scanner)\<close>: from the batch and the scanner it sees,
  the calls it makes on the scanner and, when it throws, the exception.
\<close>

datatype api_call =
    CallStart
  | CallStop
  | CallAddLog path
  | CallRemoveLog path
  | CallRemoveAllLogs
  | CallSetBrain string "(path \<rightharpoonup> logstat) option" "path list option"

type_synonym callback = "(path \<rightharpoonup> string) \<Rightarrow> scanner \<Rightarrow> api_call list \<times> string option"

fun call :: "api_call \<Rightarrow> scanner \<Rightarrow> scanner" where
  "call CallStart s = start s"
| "call CallStop s = stop s"
| "call (CallAddLog log) s = addLog log s"
| "call (CallRemoveLog log) s = removeLog log s"
| "call CallRemoveAllLogs s = removeAllLogs s"
| "call (CallSetBrain key got_stats got_logs) s = setBrain key got_stats got_logs s"

fun calls :: "api_call list \<Rightarrow> scanner \<Rightarrow> scanner" where
  "calls [] s = s"
| "calls (c # cs) s = calls cs (call c s)"

text \<open>
  The \<^verbatim>\<open>try { me._cb(files, me) } catch (e) { debug(...) }\<close> of the scan's completion.
\<close>

definition invoke_cb :: "callback option \<Rightarrow> (path \<rightharpoonup> string) \<Rightarrow> scanner \<Rightarrow> scanner" where
  "invoke_cb cb batch s =
     (case cb of
        None \<Rightarrow> s
      | Some f \<Rightarrow>
          (let (cs, thrown) = f batch s;
               s' = calls cs (s\<lparr>cb_calls := cb_calls s @ [batch]\<rparr>)
           in case thrown of
                None \<Rightarrow> s'
              | Some e \<Rightarrow> s'\<lparr>dbg := dbg s' @ [CallbackFailed e]\<rparr>))"

text \<open>
  The function that \<^verbatim>\<open>monitor\<close> hands to \<^verbatim>\<open>setTimeout\<close>, run when the pending timeout
  \<open>t\<close> fires: the detection over \<^verbatim>\<open>me._logs\<close>, which updates the object of \<^verbatim>\<open>me._stats\<close>
  in place; then the next timeout when nothing changed, and the start of \<^verbatim>\<open>scanLogs\<close>
  otherwise. \<open>None\<close> when \<open>t\<close> is not pending.
\<close>

definition timer_fires :: "filesystem \<Rightarrow> nat \<Rightarrow> scanner \<Rightarrow> scanner option" where
  "timer_fires fs t s =
     (if t \<notin> fst ` set (pending s) then None
      else
        (let s1 = clearTimeout t s;
             d = detect fs (logs s1) (the_stats s1);
             s2 = s1\<lparr>heap := (heap s1)(stats s1 := d_stats d), dbg := dbg s1 @ d_dbg d\<rparr>
         in if changedLogs d = [] then Some (monitor (s2\<lparr>timer := None\<rparr>))
            else Some (s2\<lparr>dbg := dbg s2 @ LogsChanged # map LogChanged (changedLogs d),
                          scans := scans s2 @ [(changedLogs d, stats s2)]\<rparr>)))"

text \<open>
  The completion of the oldest running \<^verbatim>\<open>scanLogs\<close>: its reads, taken in one step, on the
  \<^verbatim>\<open>stats\<close> object it holds; then the function it was given as \<^verbatim>\<open>cb\<close>. \<open>None\<close> when no scan
  is running or \<^verbatim>\<open>readAll\<close> throws.
\<close>

definition scan_completes ::
  "node_env \<Rightarrow> filesystem \<Rightarrow> callback option \<Rightarrow> scanner \<Rightarrow> scanner option" where
  "scan_completes env fs cb s =
     (case scans s of
        [] \<Rightarrow> None
      | (changed, r) # rest \<Rightarrow>
          (case scanLogs env fs changed (heap s r) of
             None \<Rightarrow> None
           | Some sc \<Rightarrow>
               (let s1 = s\<lparr>scans := rest, heap := (heap s)(r := s_stats sc),
                           dbg := dbg s @ s_dbg sc\<rparr>;
                    s2 = (case brain s1 of
                            Some key \<Rightarrow>
                              s1\<lparr>brain_sets := brain_sets s1 @ [(key @ ''/stats'', BStats (s_stats sc))]\<rparr>
                          | None \<Rightarrow> s1\<lparr>stats := r\<rparr>);
                    s3 = invoke_cb cb (files sc) s2
                in Some (monitor (s3\<lparr>timer := None\<rparr>)))))"

text \<open>
  One scan cycle with nothing between its steps: the timeout \<open>t\<close> fires and, when the
  detection has started \<^verbatim>\<open>scanLogs\<close>, that scan completes.
\<close>

definition cycle ::
  "node_env \<Rightarrow> filesystem \<Rightarrow> callback option \<Rightarrow> nat \<Rightarrow> scanner \<Rightarrow> scanner option" where
  "cycle env fs cb t s =
     (case timer_fires fs t s of
        None \<Rightarrow> None
      | Some s1 \<Rightarrow> if scans s1 = [] then Some s1 else scan_completes env fs cb s1)"

section \<open>The connection manager (src/app.js)\<close>

subsection \<open>Data\<close>

definition LOGIN_RETRY_INTERVAL :: nat where
  "LOGIN_RETRY_INTERVAL = 5 * 1000"

text \<open>
  A URL as the fields \<^verbatim>\<open>url.format\<close> is given; \<^verbatim>\<open>query\<close> is the list of its keys and
  values, empty when \<^verbatim>\<open>makeUrl\<close> is called without one.
\<close>

record url =
  protocol :: string
  host :: string
  pathname :: string
  query :: "(string \<times> string) list"

text \<open>What \<^verbatim>\<open>io(url, options)\<close> is called with.\<close>

record sock =
  endpoint :: url
  reconnection :: bool
  multiplex :: bool
  transports :: "string list"

text \<open>A request of \<^verbatim>\<open>request.post(url, {form: ...})\<close> and what its callback receives.\<close>

datatype http_request = Post url "(string \<times> string) list"

type_synonym http_result = "string + nat \<times> string"

type_synonym remote = "http_request \<Rightarrow> http_result"

text \<open>
  An entry of \<^verbatim>\<open>_sendingQueue\<close>: \<open>None\<close> is the \<^verbatim>\<open>null\<close> that \<^verbatim>\<open>connect\<close> pushes, \<open>Some\<close> the
  array of the arguments of a \<^verbatim>\<open>send\<close>, each a value or a function.
\<close>

datatype arg = Val string | Fn nat

type_synonym entry = "arg list option"

text \<open>
  The fields of \<^verbatim>\<open>App\<close> and the parts of the event loop its methods act on.
  \<^item> \<open>socket\<close> is \<^verbatim>\<open>_socket\<close>, a socket named by a number; \<open>sockets\<close> holds what each socket
    was opened with, \<open>next_socket\<close> is the name of the next one.
  \<^item> \<open>immediates\<close> counts the pending \<^verbatim>\<open>setImmediate\<close> callbacks (each runs \<^verbatim>\<open>flush\<close>).
  \<^item> A call of \<^verbatim>\<open>login(cb)\<close> that waits holds the function \<^verbatim>\<open>cb\<close> that \<^verbatim>\<open>flush\<close> made,
    which holds the list \<^verbatim>\<open>queue\<close>. \<open>http_pending\<close> are the calls of \<^verbatim>\<open>tryLogin\<close> whose
    requests are under way, \<open>retry_pending\<close> the pending timeouts of
    \<^verbatim>\<open>LOGIN_RETRY_INTERVAL\<close>, \<open>handlers\<close> the sockets on which the function \<^verbatim>\<open>login\<close>
    has registered its \<^verbatim>\<open>connect\<close> and \<^verbatim>\<open>disconnect\<close> handlers; each with the \<^verbatim>\<open>queue\<close> held.
  \<^item> \<open>emitted\<close> lists the calls \<^verbatim>\<open>socket.emit.apply(socket, data)\<close>, \<open>handled\<close> the calls
    \<^verbatim>\<open>_misaka.handleSocket(socket)\<close>.
  \<^item> \<open>crashed\<close>: an exception has left a callback of the event loop.
  The debug output of this file is not modelled.
\<close>

record app =
  node :: string
  lastOrderUrl :: url
  sistersSecret :: string
  socket :: "nat option"
  connected :: bool
  sendingQueue :: "entry list"
  sending :: bool
  immediates :: nat
  http_pending :: "entry list list"
  retry_pending :: "entry list list"
  handlers :: "(nat \<times> entry list) list"
  sockets :: "nat \<rightharpoonup> sock"
  next_socket :: nat
  emitted :: "(nat \<times> arg list) list"
  handled :: "nat list"
  crashed :: bool

text \<open>\<^verbatim>\<open>new App()\<close> and \<^verbatim>\<open>start(node, dirname)\<close> up to the call of \<^verbatim>\<open>connect\<close>.\<close>

definition App :: "string \<Rightarrow> url \<Rightarrow> string \<Rightarrow> app" where
  "App n base secret =
     \<lparr>node = n, lastOrderUrl = base, sistersSecret = secret, socket = None, connected = False,
      sendingQueue = [], sending = False, immediates = 0, http_pending = [], retry_pending = [],
      handlers = [], sockets = Map.empty, next_socket = 0, emitted = [], handled = [],
      crashed = False\<rparr>"

definition makeUrl :: "app \<Rightarrow> string \<Rightarrow> (string \<times> string) list \<Rightarrow> url" where
  "makeUrl a p q =
     \<lparr>protocol = protocol (lastOrderUrl a), host = host (lastOrderUrl a), pathname = p, query = q\<rparr>"

subsection \<open>\<^verbatim>\<open>tryLogin\<close>\<close>

text \<open>
  \<^verbatim>\<open>tryLogin(cb)\<close>. Parameters: \<open>strDigest\<close> (the HMAC-SHA1 of Node's \<^verbatim>\<open>crypto\<close>, from the
  string and the secret), \<open>ts\<close> (\<^verbatim>\<open>Date.now()\<close> as the string that \<^verbatim>\<open>ts + "&"\<close> makes of
  it) and the remote service. The result: the requests made, each with what its callback
  received, and what \<^verbatim>\<open>cb\<close> is called with, an error or a socket (the one \<^verbatim>\<open>_socket\<close>
  holds, or a new one).
\<close>

datatype login_socket = Existing nat | Opened sock

definition tryLogin ::
  "(string \<Rightarrow> string \<Rightarrow> string) \<Rightarrow> string \<Rightarrow> remote \<Rightarrow> app \<Rightarrow>
     (http_request \<times> http_result) list \<times> (string + login_socket)" where
  "tryLogin strDigest ts srv a =
     (case socket a of
        Some k \<Rightarrow> ([], Inr (Existing k))
      | None \<Rightarrow>
          (let req1 = Post (makeUrl a ''/challenge'' [])
                        [(''node'', node a), (''ts'', ts),
                         (''sig'', strDigest (ts @ ''&'' @ node a) (sistersSecret a))]
           in case srv req1 of
                Inl err \<Rightarrow> ([(req1, srv req1)], Inl err)
              | Inr (statusCode, body) \<Rightarrow>
                  if statusCode \<noteq> 200 then ([(req1, srv req1)], Inl ''fail to POST /challenge'')
                  else
                    (let challenge = body;
                         req2 = Post (makeUrl a ''/login'' [])
                                  [(''challenge'', challenge), (''node'', node a),
                                   (''sig'', strDigest (challenge @ ''&'' @ node a) (sistersSecret a))]
                     in case srv req2 of
                          Inl err \<Rightarrow> ([(req1, srv req1), (req2, srv req2)], Inl err)
                        | Inr (statusCode2, body2) \<Rightarrow>
                            if statusCode2 \<noteq> 200
                            then ([(req1, srv req1), (req2, srv req2)], Inl ''fail to POST /login'')
                            else ([(req1, srv req1), (req2, srv req2)],
                                  Inr (Opened \<lparr>endpoint = makeUrl a ''/misaka'' [(''token'', body2)],
                                               reconnection = False, multiplex = False,
                                               transports = [''websocket'', ''polling'']\<rparr>)))))"

subsection \<open>The sending queue\<close>

text \<open>The argument arrays among the entries of a queue, in order.\<close>

fun payloads :: "entry list \<Rightarrow> arg list list" where
  "payloads [] = []"
| "payloads (None # q) = payloads q"
| "payloads (Some args # q) = args # payloads q"

text \<open>
  The function \<^verbatim>\<open>login(err, socket)\<close> that \<^verbatim>\<open>login(cb)\<close> hands to \<^verbatim>\<open>tryLogin\<close>; \<open>queue\<close> is the
  list held by \<^verbatim>\<open>cb\<close>. On an error it sets the timeout of \<^verbatim>\<open>LOGIN_RETRY_INTERVAL\<close>;
  otherwise it stores the socket and registers its two handlers.
\<close>

definition login_cb :: "entry list \<Rightarrow> string + login_socket \<Rightarrow> app \<Rightarrow> app" where
  "login_cb queue res a =
     (case res of
        Inl err \<Rightarrow> a\<lparr>retry_pending := retry_pending a @ [queue]\<rparr>
      | Inr (Existing k) \<Rightarrow> a\<lparr>socket := Some k, handlers := handlers a @ [(k, queue)]\<rparr>
      | Inr (Opened so) \<Rightarrow>
          a\<lparr>sockets := (sockets a)(next_socket a \<mapsto> so), next_socket := Suc (next_socket a),
            socket := Some (next_socket a), handlers := handlers a @ [(next_socket a, queue)]\<rparr>)"

text \<open>
  The call \<^verbatim>\<open>this.tryLogin(login)\<close>: with a socket stored, \<^verbatim>\<open>tryLogin\<close> calls back at once;
  otherwise its requests are under way.
\<close>

definition tryLogin_start :: "entry list \<Rightarrow> app \<Rightarrow> app" where
  "tryLogin_start queue a =
     (case socket a of
        Some k \<Rightarrow> login_cb queue (Inr (Existing k)) a
      | None \<Rightarrow> a\<lparr>http_pending := http_pending a @ [queue]\<rparr>)"

text \<open>
  \<^verbatim>\<open>flush()\<close> and \<^verbatim>\<open>login(cb)\<close> for the function \<^verbatim>\<open>cb\<close> that \<^verbatim>\<open>flush\<close> makes, which
  emits the entries of \<open>queue\<close> that are not null on the socket it is given and calls
  \<^verbatim>\<open>flush\<close> again. When connected, \<^verbatim>\<open>login\<close> calls \<^verbatim>\<open>cb(this._socket)\<close> at once; were
  \<^verbatim>\<open>_socket\<close> null then, the first entry to emit would throw.
\<close>

function flush :: "app \<Rightarrow> app" and login :: "entry list \<Rightarrow> app \<Rightarrow> app" where
  "flush a =
     (if sendingQueue a = [] then a\<lparr>sendingQueue := [], sending := False\<rparr>
      else login (sendingQueue a) (a\<lparr>sendingQueue := []\<rparr>))"
| "login queue a =
     (if connected a then
        (case socket a of
           Some k \<Rightarrow> flush (a\<lparr>emitted := emitted a @ map (Pair k) (payloads queue)\<rparr>)
         | None \<Rightarrow> if payloads queue = [] then flush a else a\<lparr>crashed := True\<rparr>)
      else tryLogin_start queue a)"
  by pat_completeness auto
termination
  by (relation "measure (\<lambda>v. case v of Inl a \<Rightarrow> 2 * length (sendingQueue a) + 1
                                | Inr (q, a) \<Rightarrow> 2 * length (sendingQueue a) + 2)")
     (auto simp: neq_Nil_conv)

definition scheduleFlush :: "app \<Rightarrow> app" where
  "scheduleFlush a = (if sending a then a else a\<lparr>sending := True, immediates := Suc (immediates a)\<rparr>)"

definition send :: "arg list \<Rightarrow> app \<Rightarrow> app" where
  "send args a = scheduleFlush (a\<lparr>sendingQueue := sendingQueue a @ [Some args]\<rparr>)"

definition connect :: "app \<Rightarrow> app" where
  "connect a =
     (if connected a then a else scheduleFlush (a\<lparr>sendingQueue := sendingQueue a @ [None]\<rparr>))"

text \<open>
  The handlers that \<^verbatim>\<open>login\<close> registers on the socket \<open>k\<close>: on \<^verbatim>\<open>connect\<close> the socket is
  handed to \<^verbatim>\<open>_misaka\<close>, the app is connected and \<^verbatim>\<open>cb(socket)\<close> runs; on \<^verbatim>\<open>disconnect\<close> the
  socket is dropped and \<^verbatim>\<open>connect()\<close> is called.
\<close>

definition on_connect :: "nat \<Rightarrow> entry list \<Rightarrow> app \<Rightarrow> app" where
  "on_connect k queue a =
     flush (a\<lparr>handled := handled a @ [k], connected := True,
              emitted := emitted a @ map (Pair k) (payloads queue)\<rparr>)"

definition on_disconnect :: "app \<Rightarrow> app" where
  "on_disconnect a = connect (a\<lparr>socket := None, connected := False\<rparr>)"

text \<open>
  What the event loop runs, one event at a time: a call of \<^verbatim>\<open>send\<close> or \<^verbatim>\<open>connect\<close>, a
  pending \<^verbatim>\<open>setImmediate\<close> callback, the end of the requests of the oldest \<^verbatim>\<open>tryLogin\<close>
  under way (with the time and the remote service that decide its result), the oldest
  pending retry timeout, and the events \<^verbatim>\<open>connect\<close> and \<^verbatim>\<open>disconnect\<close> of a socket, which
  run the handlers registered on it in the order of their registration. \<open>None\<close>: the event
  cannot happen in this state.
\<close>

datatype event =
    Send "arg list"
  | Connect
  | Immediate
  | TryLoginDone string remote
  | RetryTimeout
  | SocketConnect nat
  | SocketDisconnect nat

fun run_handlers :: "(entry list \<Rightarrow> app \<Rightarrow> app) \<Rightarrow> entry list list \<Rightarrow> app \<Rightarrow> app" where
  "run_handlers h [] a = a"
| "run_handlers h (queue # qs) a = run_handlers h qs (h queue a)"

fun step :: "(string \<Rightarrow> string \<Rightarrow> string) \<Rightarrow> event \<Rightarrow> app \<Rightarrow> app option" where
  "step strDigest (Send args) a = (if crashed a then None else Some (send args a))"
| "step strDigest Connect a = (if crashed a then None else Some (connect a))"
| "step strDigest Immediate a =
     (if crashed a \<or> immediates a = 0 then None
      else Some (flush (a\<lparr>immediates := immediates a - 1\<rparr>)))"
| "step strDigest (TryLoginDone ts srv) a =
     (if crashed a then None
      else case http_pending a of
             [] \<Rightarrow> None
           | queue # rest \<Rightarrow>
               Some (login_cb queue (snd (tryLogin strDigest ts srv (a\<lparr>socket := None\<rparr>)))
                       (a\<lparr>http_pending := rest\<rparr>)))"
| "step strDigest RetryTimeout a =
     (if crashed a then None
      else case retry_pending a of
             [] \<Rightarrow> None
           | queue # rest \<Rightarrow> Some (tryLogin_start queue (a\<lparr>retry_pending := rest\<rparr>)))"
| "step strDigest (SocketConnect k) a =
     (if crashed a \<or> k \<notin> fst ` set (handlers a) then None
      else Some (run_handlers (on_connect k)
                   (map snd (filter (\<lambda>h. fst h = k) (handlers a))) a))"
| "step strDigest (SocketDisconnect k) a =
     (if crashed a \<or> k \<notin> fst ` set (handlers a) then None
      else Some (run_handlers (\<lambda>queue. on_disconnect)
                   (map snd (filter (\<lambda>h. fst h = k) (handlers a))) a))"

fun run :: "(string \<Rightarrow> string \<Rightarrow> string) \<Rightarrow> event list \<Rightarrow> app \<Rightarrow> app option" where
  "run strDigest [] a = Some a"
| "run strDigest (ev # evs) a =
     (case step strDigest ev a of None \<Rightarrow> None | Some a' \<Rightarrow> run strDigest evs a')"

section \<open>Notions the properties are stated with\<close>

text \<open>
  A list cut into consecutive chunks of at most \<open>n\<close> elements, all but the last of
  exactly \<open>n\<close>: how the properties describe the reads of \<^verbatim>\<open>readAll\<close>.
\<close>

function chunks_of :: "nat \<Rightarrow> 'a list \<Rightarrow> 'a list list" where
  "chunks_of n xs = (if n = 0 \<or> xs = [] then [] else take n xs # chunks_of n (drop n xs))"
  by pat_completeness auto
termination
  by (relation "measure (\<lambda>(n, xs). length xs)") auto

text \<open>
  What the detection does with a path, from what \<^verbatim>\<open>stats[log]\<close> yields for it: it leaves
  the path alone (\<open>skipped\<close>: the stat fails, the path is no regular file, or size and
  modification time are those of the entry); otherwise it stores the new size and time
  with the offset \<open>kept_offset\<close>, and marks the path as changed when that offset is a
  number below the size (\<open>growing\<close>).
\<close>

definition skipped :: "filesystem \<Rightarrow> path \<Rightarrow> property \<Rightarrow> bool" where
  "skipped fs l prev =
     (case statSync (fs l) of
        Inl e \<Rightarrow> True
      | Inr stat \<Rightarrow>
          \<not> isFile stat \<or>
          (case prev of
             Stat p \<Rightarrow> fsize p = st_size stat \<and> mtime p = st_mtime stat
           | Member \<Rightarrow> False
           | Falsy \<Rightarrow> False))"

definition kept_offset :: "fs_Stats \<Rightarrow> property \<Rightarrow> nat option" where
  "kept_offset stat prev =
     (case prev of
        Falsy \<Rightarrow> Some 0
      | Member \<Rightarrow> None
      | Stat p \<Rightarrow>
          (case offset p of
             None \<Rightarrow> None
           | Some off \<Rightarrow> if st_size stat < off then Some 0 else Some off))"

definition growing :: "filesystem \<Rightarrow> property \<Rightarrow> path \<Rightarrow> bool" where
  "growing fs prev l =
     (\<not> skipped fs l prev \<and>
      (case statSync (fs l) of
         Inl e \<Rightarrow> False
       | Inr stat \<Rightarrow>
           (case kept_offset stat prev of None \<Rightarrow> False | Some off \<Rightarrow> off < st_size stat)))"

text \<open>
  An entry whose offset, when it is a number, is within the size; and an entry whose
  offset is a number below the size.
\<close>

definition within :: "logstat \<Rightarrow> bool" where
  "within st = (case offset st of None \<Rightarrow> True | Some off \<Rightarrow> off \<le> fsize st)"

definition unread :: "logstat \<Rightarrow> bool" where
  "unread st = (case offset st of None \<Rightarrow> False | Some off \<Rightarrow> off < fsize st)"

text \<open>
  What holds of the list \<^verbatim>\<open>changedLogs\<close> during the detection: no path twice, and each
  with a stored entry that has the size and time of the stat and an offset below the size.
\<close>

definition marked :: "filesystem \<Rightarrow> detection \<Rightarrow> bool" where
  "marked fs d = (distinct (changedLogs d) \<and>
     (\<forall>l\<in>set (changedLogs d). \<exists>st stat. d_stats d l = Some st \<and> statSync (fs l) = Inr stat \<and> isFile stat
        \<and> fsize st = st_size stat \<and> mtime st = st_mtime stat \<and> unread st))"

text \<open>The stored entries of the paths \<open>ls\<close> have their offset within their size.\<close>

definition stats_ok :: "path list \<Rightarrow> (path \<rightharpoonup> logstat) \<Rightarrow> bool" where
  "stats_ok ls m = (\<forall>l\<in>set ls. \<forall>st. m l = Some st \<longrightarrow> within st)"

text \<open>The scanner as the callback of a cycle receives it.\<close>

definition scanned :: "filesystem \<Rightarrow> nat \<Rightarrow> scanning \<Rightarrow> scanner \<Rightarrow> scanner" where
  "scanned fs t sc s =
     (let d = detect fs (logs s) (the_stats s);
          s1 = s\<lparr>pending := filter (\<lambda>p. fst p \<noteq> t) (pending s), scans := [],
                 heap := (heap s)(stats s := s_stats sc),
                 dbg := dbg s @ d_dbg d @ LogsChanged # map LogChanged (changedLogs d) @ s_dbg sc\<rparr>
      in case brain s of
           Some key \<Rightarrow> s1\<lparr>brain_sets := brain_sets s @ [(key @ ''/stats'', BStats (s_stats sc))]\<rparr>
         | None \<Rightarrow> s1)"

text \<open>
  The argument arrays of the calls of \<^verbatim>\<open>send\<close> among a list of events, in order, and the
  events of a socket.
\<close>

fun sent :: "event list \<Rightarrow> arg list list" where
  "sent [] = []"
| "sent (Send args # evs) = args # sent evs"
| "sent (ev # evs) = sent evs"

fun socket_event :: "event \<Rightarrow> bool" where
  "socket_event (SocketConnect k) = True"
| "socket_event (SocketDisconnect k) = True"
| "socket_event ev = False"

text \<open>
  An app without a connection and with nothing to do: not connected, no socket stored, the
  queue empty, no flush pending and no login under way; the handlers registered so far
  are on sockets opened earlier. A new app is so; so is a connected app at rest at the
  moment its socket drops, before the \<^verbatim>\<open>disconnect\<close> handler calls \<^verbatim>\<open>connect\<close>.
\<close>

definition idle :: "app \<Rightarrow> bool" where
  "idle a =
     (\<not> connected a \<and> \<not> crashed a \<and> socket a = None \<and> sendingQueue a = [] \<and> \<not> sending a
      \<and> immediates a = 0 \<and> http_pending a = [] \<and> retry_pending a = []
      \<and> (\<forall>h\<in>set (handlers a). fst h < next_socket a))"

text \<open>
  What holds of an app \<open>a\<close> without a connection since it was the idle \<open>a0\<close>, after the
  messages \<open>msgs\<close> were sent: nothing more is emitted; \<^verbatim>\<open>_sending\<close> is set exactly when a
  flush is pending or a login waits, and only then the queue holds entries; at most one
  of these is the case; the queue held by the waiting login and the sending queue
  together hold \<open>msgs\<close> in order; and a socket is stored exactly when that login has
  opened it and registered its handlers on it.
\<close>

definition waiting_inv :: "app \<Rightarrow> app \<Rightarrow> arg list list \<Rightarrow> bool" where
  "waiting_inv a0 a msgs =
     (\<not> connected a \<and> \<not> crashed a \<and> emitted a = emitted a0
      \<and> (\<forall>h\<in>set (handlers a0). fst h < next_socket a0)
      \<and> (sending a \<longleftrightarrow>
           http_pending a \<noteq> [] \<or> retry_pending a \<noteq> [] \<or> socket a \<noteq> None \<or> immediates a \<noteq> 0)
      \<and> (\<not> sending a \<longrightarrow> sendingQueue a = [])
      \<and> (case socket a of
            None \<Rightarrow>
              handlers a = handlers a0 \<and> next_socket a = next_socket a0
              \<and> length (http_pending a) + length (retry_pending a) + immediates a \<le> 1
              \<and> payloads (concat (http_pending a) @ concat (retry_pending a) @ sendingQueue a) = msgs
          | Some k \<Rightarrow>
              k = next_socket a0 \<and> http_pending a = [] \<and> retry_pending a = [] \<and> immediates a = 0
              \<and> (\<exists>q. handlers a = handlers a0 @ [(k, q)] \<and> payloads (q @ sendingQueue a) = msgs)))"

text \<open>A request has failed: a transport error, or a status other than 200.\<close>

definition request_failed :: "http_result \<Rightarrow> bool" where
  "request_failed r = (case r of Inl err \<Rightarrow> True | Inr (statusCode, body) \<Rightarrow> statusCode \<noteq> 200)"

text \<open>Every stored entry has its offset, when it is a number, within its size.\<close>

definition offsets_within :: "(path \<rightharpoonup> logstat) \<Rightarrow> bool" where
  "offsets_within m = (\<forall>l st. m l = Some st \<longrightarrow> within st)"

text \<open>
  The two requests of a login attempt, as \<^verbatim>\<open>tryLogin\<close> makes them: the challenge request
  at the time \<open>ts\<close>, and the login request for a challenge.
\<close>

definition challenge_request :: "(string \<Rightarrow> string \<Rightarrow> string) \<Rightarrow> string \<Rightarrow> app \<Rightarrow> http_request" where
  "challenge_request strDigest ts a =
     Post \<lparr>protocol = protocol (lastOrderUrl a), host = host (lastOrderUrl a),
           pathname = ''/challenge'', query = []\<rparr>
       [(''node'', node a), (''ts'', ts),
        (''sig'', strDigest (ts @ ''&'' @ node a) (sistersSecret a))]"

definition login_request :: "(string \<Rightarrow> string \<Rightarrow> string) \<Rightarrow> string \<Rightarrow> app \<Rightarrow> http_request" where
  "login_request strDigest challenge a =
     Post \<lparr>protocol = protocol (lastOrderUrl a), host = host (lastOrderUrl a),
           pathname = ''/login'', query = []\<rparr>
       [(''challenge'', challenge), (''node'', node a),
        (''sig'', strDigest (challenge @ ''&'' @ node a) (sistersSecret a))]"

text \<open>
  What is read off a scanner in the examples: the entry stored for a path, what the
  batches handed to the callback held for a path, and the paths that the detection of a
  cycle on the file system \<open>fs\<close> would mark as changed.
\<close>

definition stored :: "path \<Rightarrow> scanner \<Rightarrow> logstat option" where
  "stored l s = the_stats s l"

definition delivered :: "path \<Rightarrow> scanner \<Rightarrow> string option list" where
  "delivered l s = map (\<lambda>batch. batch l) (cb_calls s)"

definition changed_in :: "filesystem \<Rightarrow> scanner \<Rightarrow> path list" where
  "changed_in fs s = changedLogs (detect fs (logs s) (the_stats s))"

subsection \<open>Inputs of the examples\<close>

text \<open>
  A runtime that decodes every byte as the character it is and allocates zeroed buffers; a
  regular file of the stat size \<open>n\<close>, the modification time \<open>mt\<close> and the given bytes that
  opens, reads and closes without error; a path that does not exist; a callback that
  makes no call and returns.
\<close>

definition env0 :: node_env where
  "env0 = \<lparr>toString = (\<lambda>bytes. bytes), newBuffer = (\<lambda>n. replicate n (CHR 0x00))\<rparr>"

definition regular :: "nat \<Rightarrow> nat \<Rightarrow> char list \<Rightarrow> file_node" where
  "regular n mt bytes =
     \<lparr>statSync = Inr \<lparr>isFile = True, st_size = n, st_mtime = mt\<rparr>, open_err = None,
      contents = bytes, read_err = (\<lambda>pos. None), close_err = None\<rparr>"

definition missing :: file_node where
  "missing = \<lparr>statSync = Inl ''ENOENT'', open_err = Some ''ENOENT'', contents = [],
              read_err = (\<lambda>pos. None), close_err = None\<rparr>"

definition quiet :: callback where
  "quiet = (\<lambda>batch s. ([], None))"

text \<open>A callback that makes no call and throws.\<close>

definition failing :: callback where
  "failing = (\<lambda>batch s. ([], Some ''boom''))"

text \<open>
  Scanners that watch \<^verbatim>\<open>a.log\<close> and \<^verbatim>\<open>b.log\<close>, or \<^verbatim>\<open>a.log\<close> alone, started, with the
  timeout 0 pending. File systems: \<^verbatim>\<open>a.log\<close> of one byte beside an empty \<^verbatim>\<open>b.log\<close>; then
  \<^verbatim>\<open>a.log\<close> grown to two bytes but failing to open, beside \<^verbatim>\<open>b.log\<close> grown to one byte;
  \<^verbatim>\<open>a.log\<close> of 300000 bytes, more than one chunk; the same failing to open; the same with
  the read at position 262144 (the second chunk) failing; and \<^verbatim>\<open>a.log\<close> cut down to its
  first three bytes.
\<close>

definition ex_scanner :: scanner where
  "ex_scanner = start (addLog ''b.log'' (addLog ''a.log'' LogScanner))"

definition ex_watching :: scanner where
  "ex_watching = start (addLog ''a.log'' LogScanner)"

definition ex_fs_first :: filesystem where
  "ex_fs_first = (\<lambda>p. missing)(''a.log'' := regular 1 1 ''x'', ''b.log'' := regular 0 1 [])"

definition ex_fs_open_fails :: filesystem where
  "ex_fs_open_fails =
     (\<lambda>p. missing)(''a.log'' := (regular 2 2 ''xy'')\<lparr>open_err := Some ''EACCES''\<rparr>,
                    ''b.log'' := regular 1 2 ''z'')"

definition ex_fs_big :: filesystem where
  "ex_fs_big = (\<lambda>p. missing)(''a.log'' := regular 300000 1 (replicate 300000 (CHR ''a'')))"

definition ex_fs_big_closed :: filesystem where
  "ex_fs_big_closed =
     (\<lambda>p. missing)(''a.log'' := (regular 300000 1 (replicate 300000 (CHR ''a'')))
        \<lparr>open_err := Some ''EACCES''\<rparr>)"

definition ex_fs_read_fails :: filesystem where
  "ex_fs_read_fails =
     (\<lambda>p. missing)(''a.log'' := (regular 300000 1 (replicate 300000 (CHR ''a'')))
        \<lparr>read_err := (\<lambda>pos. if pos = 262144 then Some ''EIO'' else None)\<rparr>)"

definition ex_fs_cut :: filesystem where
  "ex_fs_cut = (\<lambda>p. missing)(''a.log'' := regular 3 2 ''aaa'')"

text \<open>
  Scanners bound to a brain that holds an entry for \<^verbatim>\<open>a.log\<close>: one whose offset (20) is
  beyond its size (10), and one read up to its size of 300000; and \<^verbatim>\<open>a.log\<close> with the size
  and time of the first entry.
\<close>

definition ex_loaded :: scanner where
  "ex_loaded =
     start (setBrain ''scanner'' (Some [''a.log'' \<mapsto> \<lparr>fsize = 10, mtime = 5, offset = Some 20\<rparr>])
              (Some [''a.log'']) LogScanner)"

definition ex_fs_same :: filesystem where
  "ex_fs_same = (\<lambda>p. missing)(''a.log'' := regular 10 5 (replicate 10 (CHR ''a'')))"

definition ex_resumed :: scanner where
  "ex_resumed =
     start (setBrain ''scanner'' (Some [''a.log'' \<mapsto> \<lparr>fsize = 300000, mtime = 1, offset = Some 300000\<rparr>])
              (Some [''a.log'']) LogScanner)"

text \<open>
  An app, a digest for the examples, and a run without a connection: three calls of
  \<^verbatim>\<open>send\<close> and two of \<^verbatim>\<open>connect\<close>, around a flush, a login attempt that fails, its retry and
  an attempt that succeeds.
\<close>

definition ex_app :: app where
  "ex_app = App ''misaka1'' \<lparr>protocol = ''http:'', host = ''lo:80'', pathname = ''/'', query = []\<rparr> ''s''"

definition ex_digest :: "string \<Rightarrow> string \<Rightarrow> string" where
  "ex_digest str secret = str @ secret"

definition ex_events :: "event list" where
  "ex_events =
     [Connect, Send [Val ''log'', Val ''one''], Immediate, Send [Val ''log'', Val ''two''],
      TryLoginDone ''7'' (\<lambda>req. Inl ''ECONNREFUSED''), Connect, RetryTimeout,
      Send [Val ''log'', Val ''three'', Fn 1], TryLoginDone ''8'' (\<lambda>req. Inr (200, ''abc''))]"

section \<open>Properties of the log scanner\<close>

declare readAll.simps [simp del]

declare chunks_of.simps [simp del]

subsection \<open>\<^verbatim>\<open>readAll\<close>\<close>

lemma concat_chunks_of: "0 < n \<Longrightarrow> concat (chunks_of n xs) = xs"
proof (induction n xs rule: chunks_of.induct)
  case (1 n xs)
  then show ?case by (subst chunks_of.simps) auto
qed

lemma chunks_of_bound: "c \<in> set (chunks_of n xs) \<Longrightarrow> length c \<le> n \<and> c \<noteq> []"
proof (induction n xs rule: chunks_of.induct)
  case (1 n xs)
  from "1.prems" have ne: "n \<noteq> 0" "xs \<noteq> []"
    by (subst (asm) chunks_of.simps, auto split: if_splits)+
  with "1.prems" have "c = take n xs \<or> c \<in> set (chunks_of n (drop n xs))"
    by (subst (asm) chunks_of.simps) auto
  with 1 ne show ?case by auto
qed

lemma chunks_of_many: "0 < n \<Longrightarrow> n < length xs \<Longrightarrow> 2 \<le> length (chunks_of n xs)"
  by (subst chunks_of.simps, subst chunks_of.simps) auto

lemma fs_read_length:
  "fs_read env fd n pos = Inr (r, buffer) \<Longrightarrow> r \<le> n \<and> r = length (take n (drop pos (contents fd)))"
  by (auto simp: fs_read_def Let_def split: option.splits)

lemma readAll_undefined: "offset st = None \<Longrightarrow> readAll env fd st out = Some (Inr out, st)"
  by (simp add: readAll.simps)

lemma readAll_done: "offset st = Some (fsize st) \<Longrightarrow> readAll env fd st out = Some (Inr out, st)"
  by (simp add: readAll.simps)

lemma readAll_throws: "offset st = Some off \<Longrightarrow> fsize st < off \<Longrightarrow> readAll env fd st out = None"
  by (simp add: readAll.simps Let_def min_def)

lemma readAll_step:
  assumes "offset st = Some off" and "off < fsize st"
  shows "readAll env fd st out =
     (case fs_read env fd (min (fsize st - off) MAX_FILE_READ_SIZE) off of
        Inl err \<Rightarrow> Some (Inl err, st)
      | Inr (rd, buffer) \<Rightarrow>
          if rd = 0 then Some (Inr out, st)
          else readAll env fd (st\<lparr>offset := Some (off + rd)\<rparr>) (out @ toString env buffer))"
proof -
  have e: "int (fsize st) - int off = int (fsize st - off)"
    using assms(2) by simp
  have n: "nat (min (int (fsize st) - int off) (int MAX_FILE_READ_SIZE))
             = min (fsize st - off) MAX_FILE_READ_SIZE"
    unfolding e by (simp add: min_def)
  have nn: "\<not> min (int (fsize st) - int off) (int MAX_FILE_READ_SIZE) < 0"
    using assms(2) by (simp add: min_def)
  have ne: "int (fsize st) - int off \<noteq> 0" using assms(2) by simp
  show ?thesis
    by (subst readAll.simps) (simp only: assms(1) option.simps Let_def ne nn n if_False)
qed

lemma readAll_frame:
  "readAll env fd st out = Some (r, st') \<Longrightarrow> offset st = Some off \<Longrightarrow>
     fsize st' = fsize st \<and> mtime st' = mtime st
     \<and> (\<exists>off'. offset st' = Some off' \<and> off \<le> off' \<and> off' \<le> fsize st')"
proof (induction "fsize st - off" arbitrary: st off out rule: less_induct)
  case less
  note o = less.prems(2)
  from less.prems have le: "off \<le> fsize st"
    by (cases "fsize st < off") (simp_all add: readAll_throws)
  show ?case
  proof (cases "off = fsize st")
    case True
    with less.prems show ?thesis by (simp add: readAll_done)
  next
    case False
    with le have lt: "off < fsize st" by simp
    note step = readAll_step [OF o lt, of env fd out]
    show ?thesis
    proof (cases "fs_read env fd (min (fsize st - off) MAX_FILE_READ_SIZE) off")
      case (Inl e)
      with less.prems(1) o lt show ?thesis by (simp add: step)
    next
      case (Inr p)
      obtain rd buffer where p: "p = (rd, buffer)" by (cases p)
      from Inr p have rl: "rd \<le> min (fsize st - off) MAX_FILE_READ_SIZE"
        using fs_read_length by blast
      show ?thesis
      proof (cases "rd = 0")
        case True
        with less.prems(1) o lt Inr p show ?thesis by (simp add: step)
      next
        case rz: False
        let ?st = "st\<lparr>offset := Some (off + rd)\<rparr>"
        from less.prems(1) Inr p rz
        have rec: "readAll env fd ?st (out @ toString env buffer) = Some (r, st')"
          by (simp add: step)
        have m: "fsize ?st - (off + rd) < fsize st - off" using lt rz by simp
        have o': "offset ?st = Some (off + rd)" by simp
        from less.hyps [OF m rec o'] show ?thesis by auto
      qed
    qed
  qed
qed

lemma readAll_within:
  assumes "readAll env fd st out = Some (r, st')" and "within st"
  shows "within st'"
proof (cases "offset st")
  case None
  with assms show ?thesis by (simp add: readAll_undefined)
next
  case (Some off)
  from readAll_frame [OF assms(1) Some] show ?thesis by (auto simp: within_def)
qed

lemma readAll_total:
  "offset st = Some off \<Longrightarrow> off \<le> fsize st \<Longrightarrow> \<exists>r st'. readAll env fd st out = Some (r, st')"
proof (induction "fsize st - off" arbitrary: st off out rule: less_induct)
  case less
  note o = less.prems(1)
  show ?case
  proof (cases "off = fsize st")
    case True
    with o show ?thesis by (simp add: readAll_done)
  next
    case False
    with less.prems have lt: "off < fsize st" by simp
    note step = readAll_step [OF o lt, of env fd out]
    show ?thesis
    proof (cases "fs_read env fd (min (fsize st - off) MAX_FILE_READ_SIZE) off")
      case (Inl e)
      then show ?thesis by (simp add: step)
    next
      case (Inr p)
      obtain rd buffer where p: "p = (rd, buffer)" by (cases p)
      from Inr p have rl: "rd \<le> min (fsize st - off) MAX_FILE_READ_SIZE"
        using fs_read_length by blast
      show ?thesis
      proof (cases "rd = 0")
        case True
        with Inr p show ?thesis by (simp add: step)
      next
        case rz: False
        let ?st = "st\<lparr>offset := Some (off + rd)\<rparr>"
        have m: "fsize ?st - (off + rd) < fsize st - off" using lt rz by simp
        have o': "offset ?st = Some (off + rd)" by simp
        have le: "off + rd \<le> fsize ?st" using rl lt by (simp add: min_def split: if_splits)
        from less.hyps [OF m o' le, of "out @ toString env buffer"] Inr p rz
        show ?thesis by (simp add: step)
      qed
    qed
  qed
qed

lemma readAll_total_within: "within st \<Longrightarrow> \<exists>r st'. readAll env fd st out = Some (r, st')"
proof (cases "offset st")
  case None
  then show ?thesis by (simp add: readAll_undefined)
next
  case (Some off)
  assume "within st"
  with Some have "off \<le> fsize st" by (simp add: within_def)
  with Some show ?thesis by (rule readAll_total)
qed

lemma fs_read_full:
  "read_err fd pos = None \<Longrightarrow> pos + n \<le> length (contents fd) \<Longrightarrow>
     fs_read env fd n pos = Inr (n, take n (drop pos (contents fd)))"
  by (simp add: fs_read_def Let_def)

lemma readAll_full:
  "\<forall>pos. read_err fd pos = None \<Longrightarrow> fsize st \<le> length (contents fd) \<Longrightarrow>
   offset st = Some off \<Longrightarrow> off \<le> fsize st \<Longrightarrow>
   readAll env fd st out =
     Some (Inr (out @ concat (map (toString env)
                  (chunks_of MAX_FILE_READ_SIZE
                     (take (fsize st - off) (drop off (contents fd)))))),
           st\<lparr>offset := Some (fsize st)\<rparr>)"
proof (induction "fsize st - off" arbitrary: st off out rule: less_induct)
  case less
  note o = less.prems(3)
  have M: "0 < MAX_FILE_READ_SIZE" by (simp add: MAX_FILE_READ_SIZE_def)
  show ?case
  proof (cases "off = fsize st")
    case True
    with o have "st\<lparr>offset := Some (fsize st)\<rparr> = st" by simp
    with True o show ?thesis by (simp add: readAll_done chunks_of.simps)
  next
    case False
    with less.prems have lt: "off < fsize st" by simp
    let ?n = "min (fsize st - off) MAX_FILE_READ_SIZE"
    let ?st = "st\<lparr>offset := Some (off + ?n)\<rparr>"
    let ?delta = "take (fsize st - off) (drop off (contents fd))"
    have npos: "0 < ?n" using lt M by simp
    have rd: "fs_read env fd ?n off = Inr (?n, take ?n (drop off (contents fd)))"
      using less.prems lt by (intro fs_read_full) auto
    have m: "fsize ?st - (off + ?n) < fsize st - off" using lt npos by simp
    have o': "offset ?st = Some (off + ?n)" by simp
    have le: "off + ?n \<le> fsize ?st" using lt by simp
    have len: "fsize ?st \<le> length (contents fd)" using less.prems(2) by simp
    from less.hyps [OF m less.prems(1) len o' le, of "out @ toString env (take ?n (drop off (contents fd)))"]
    have IH: "readAll env fd ?st (out @ toString env (take ?n (drop off (contents fd)))) =
       Some (Inr ((out @ toString env (take ?n (drop off (contents fd)))) @ concat (map (toString env)
                  (chunks_of MAX_FILE_READ_SIZE
                     (take (fsize st - (off + ?n)) (drop (off + ?n) (contents fd)))))),
           st\<lparr>offset := Some (fsize st)\<rparr>)"
      by simp
    have dne: "?delta \<noteq> []" using lt less.prems by auto
    have hd: "take MAX_FILE_READ_SIZE ?delta = take ?n (drop off (contents fd))"
      by (simp add: min.commute)
    have tl: "drop MAX_FILE_READ_SIZE ?delta
                = take (fsize st - (off + ?n)) (drop (off + ?n) (contents fd))"
      using lt by (auto simp: drop_take min_def add.commute)
    have ch: "chunks_of MAX_FILE_READ_SIZE ?delta
                = take ?n (drop off (contents fd))
                  # chunks_of MAX_FILE_READ_SIZE
                      (take (fsize st - (off + ?n)) (drop (off + ?n) (contents fd)))"
      using M dne by (subst chunks_of.simps) (simp only: hd tl, simp)
    have nz: "?n \<noteq> 0" using npos by simp
    show ?thesis
      using nz IH by (simp add: readAll_step [OF o lt] rd ch del: min_less_iff_conj min_0L min_0R)
  qed
qed

lemma readAll_fails_after:
  assumes "offset st = Some off"
    and "\<forall>i<length ns. 0 < ns ! i \<and>
           (\<exists>buffer. fs_read env fd (min (fsize st - (off + sum_list (take i ns))) MAX_FILE_READ_SIZE)
                        (off + sum_list (take i ns)) = Inr (ns ! i, buffer))"
    and "read_err fd (off + sum_list ns) = Some e"
    and "off + sum_list ns < fsize st"
  shows "readAll env fd st out = Some (Inl e, st\<lparr>offset := Some (off + sum_list ns)\<rparr>)"
  using assms
proof (induction ns arbitrary: st off out)
  case Nil
  from Nil.prems(4) have lt: "off < fsize st" by simp
  from Nil.prems(1) have "st\<lparr>offset := Some off\<rparr> = st" by simp
  with Nil.prems(3) show ?case by (simp add: readAll_step [OF Nil.prems(1) lt] fs_read_def)
next
  case (Cons n ns)
  from Cons.prems(4) have lt: "off < fsize st" by simp
  from Cons.prems(2) [rule_format, of 0] obtain buffer
    where n: "0 < n"
      and rd: "fs_read env fd (min (fsize st - off) MAX_FILE_READ_SIZE) off = Inr (n, buffer)"
    by auto
  let ?st = "st\<lparr>offset := Some (off + n)\<rparr>"
  have a1: "offset ?st = Some (off + n)" by simp
  have a2: "\<forall>i<length ns. 0 < ns ! i \<and>
           (\<exists>buffer. fs_read env fd (min (fsize ?st - (off + n + sum_list (take i ns))) MAX_FILE_READ_SIZE)
                        (off + n + sum_list (take i ns)) = Inr (ns ! i, buffer))"
  proof (intro allI impI)
    fix i assume "i < length ns"
    then have "Suc i < length (n # ns)" by simp
    from Cons.prems(2) [rule_format, OF this]
    show "0 < ns ! i \<and>
           (\<exists>buffer. fs_read env fd (min (fsize ?st - (off + n + sum_list (take i ns))) MAX_FILE_READ_SIZE)
                        (off + n + sum_list (take i ns)) = Inr (ns ! i, buffer))"
      by (simp add: add.assoc)
  qed
  have a3: "read_err fd (off + n + sum_list ns) = Some e" using Cons.prems(3) by (simp add: add.assoc)
  have a4: "off + n + sum_list ns < fsize ?st" using Cons.prems(4) by (simp add: add.assoc)
  have "readAll env fd ?st (out @ toString env buffer)
          = Some (Inl e, ?st\<lparr>offset := Some (off + n + sum_list ns)\<rparr>)"
    by (rule Cons.IH [OF a1 a2 a3 a4])
  with n show ?case by (simp add: readAll_step [OF Cons.prems(1) lt] rd add.assoc)
qed

subsection \<open>\<^verbatim>\<open>scan\<close>\<close>

lemma stats_get_own: "m l = Some st \<Longrightarrow> stats_get m l = Stat st"
  by (simp add: stats_get_def)

lemma stats_get_Stat: "stats_get m l = Stat st \<longleftrightarrow> m l = Some st"
  by (auto simp: stats_get_def split: option.splits if_splits)

lemma scan_Cons:
  "scan env fs (l # ls) s = (case scan env fs [l] s of None \<Rightarrow> None | Some s1 \<Rightarrow> scan env fs ls s1)"
  by (simp split: option.splits sum.splits prod.splits property.splits)

lemma scan_single_frame:
  "scan env fs [p] s = Some s' \<Longrightarrow> l \<noteq> p \<Longrightarrow> s_stats s' l = s_stats s l \<and> files s' l = files s l"
  by (auto simp: files_put_def split: option.splits sum.splits prod.splits property.splits if_splits)

lemma scan_frame:
  "scan env fs ls s = Some s' \<Longrightarrow> l \<notin> set ls \<Longrightarrow> s_stats s' l = s_stats s l \<and> files s' l = files s l"
proof (induction ls arbitrary: s)
  case Nil
  then show ?case by simp
next
  case (Cons p ps)
  from Cons.prems obtain s1 where s1: "scan env fs [p] s = Some s1" "scan env fs ps s1 = Some s'"
    by (subst (asm) scan_Cons) (auto split: option.splits)
  from Cons.prems have "l \<noteq> p" "l \<notin> set ps" by auto
  with Cons.IH [OF s1(2)] scan_single_frame [OF s1(1)] show ?case by simp
qed

lemma scan_at:
  "scan env fs ls s = Some s' \<Longrightarrow> distinct ls \<Longrightarrow> l \<in> set ls \<Longrightarrow>
     \<exists>s0 s1. s_stats s0 l = s_stats s l \<and> files s0 l = files s l \<and> scan env fs [l] s0 = Some s1
        \<and> s_stats s' l = s_stats s1 l \<and> files s' l = files s1 l"
proof (induction ls arbitrary: s)
  case Nil
  then show ?case by simp
next
  case (Cons p ps)
  from Cons.prems obtain s1 where s1: "scan env fs [p] s = Some s1" "scan env fs ps s1 = Some s'"
    by (subst (asm) scan_Cons) (auto split: option.splits)
  show ?case
  proof (cases "l = p")
    case True
    with Cons.prems have "l \<notin> set ps" by simp
    from scan_frame [OF s1(2) this] s1(1) True show ?thesis by blast
  next
    case False
    with Cons.prems have "l \<in> set ps" "distinct ps" by auto
    from Cons.IH [OF s1(2) this(2) this(1)] scan_single_frame [OF s1(1) False]
    show ?thesis by auto
  qed
qed

lemma scan_single_total:
  assumes "stats_ok (p # ps) (s_stats s)"
  shows "\<exists>s1. scan env fs [p] s = Some s1 \<and> stats_ok ps (s_stats s1)"
proof (cases "stats_get (s_stats s) p")
  case Falsy
  with assms show ?thesis by (simp add: stats_ok_def)
next
  case Member
  with assms show ?thesis by (cases "open_err (fs p)") (simp_all add: stats_ok_def)
next
  case (Stat st)
  then have own: "s_stats s p = Some st" by (simp add: stats_get_Stat)
  with assms have w: "within st" by (simp add: stats_ok_def)
  show ?thesis
  proof (cases "open_err (fs p)")
    case (Some e)
    with Stat assms show ?thesis by (simp add: stats_ok_def)
  next
    case None
    from readAll_total_within [OF w] obtain r st' where r: "readAll env (fs p) st [] = Some (r, st')"
      by blast
    from readAll_within [OF r w] have "within st'" .
    with r None Stat assms show ?thesis
      by (cases r) (auto simp: stats_ok_def)
  qed
qed

lemma scan_total:
  "stats_ok ls (s_stats s) \<Longrightarrow> \<exists>s'. scan env fs ls s = Some s'"
proof (induction ls arbitrary: s)
  case Nil
  then show ?case by simp
next
  case (Cons p ps)
  from scan_single_total [OF Cons.prems] obtain s1
    where s1: "scan env fs [p] s = Some s1" "stats_ok ps (s_stats s1)" by blast
  from Cons.IH [OF s1(2)] s1(1) show ?case by (subst scan_Cons) simp
qed

subsection \<open>Detection\<close>

lemma detect_log_skipped:
  "skipped fs l (stats_get (d_stats d) l) \<Longrightarrow>
     d_stats (detect_log fs l d) = d_stats d \<and> changedLogs (detect_log fs l d) = changedLogs d"
  by (cases "stats_get (d_stats d) l")
     (auto simp: skipped_def detect_log_def Let_def split: sum.splits)

lemma detect_log_updated:
  assumes "\<not> skipped fs l (stats_get (d_stats d) l)" and "statSync (fs l) = Inr stat"
  shows "d_stats (detect_log fs l d)
           = (d_stats d)(l \<mapsto> \<lparr>fsize = st_size stat, mtime = st_mtime stat,
                                 offset = kept_offset stat (stats_get (d_stats d) l)\<rparr>)
       \<and> changedLogs (detect_log fs l d)
           = changedLogs d @ (if growing fs (stats_get (d_stats d) l) l then [l] else [])"
proof (cases "stats_get (d_stats d) l")
  case Falsy
  with assms show ?thesis
    by (auto simp: skipped_def kept_offset_def growing_def detect_log_def Let_def)
next
  case Member
  with assms show ?thesis
    by (auto simp: skipped_def kept_offset_def growing_def detect_log_def Let_def)
next
  case (Stat p)
  with assms show ?thesis
    by (cases "offset p")
       (auto simp: skipped_def kept_offset_def growing_def detect_log_def Let_def)
qed

lemma not_skipped_stat: "\<not> skipped fs l prev \<Longrightarrow> \<exists>stat. statSync (fs l) = Inr stat \<and> isFile stat"
  by (auto simp: skipped_def split: sum.splits)

lemma growing_unread:
  "growing fs prev l \<Longrightarrow> statSync (fs l) = Inr stat \<Longrightarrow>
     unread \<lparr>fsize = st_size stat, mtime = st_mtime stat, offset = kept_offset stat prev\<rparr>"
  by (auto simp: growing_def unread_def split: option.splits)

lemma kept_offset_within:
  "within \<lparr>fsize = st_size stat, mtime = mt, offset = kept_offset stat prev\<rparr>"
proof (cases prev)
  case Falsy
  then show ?thesis by (simp add: within_def kept_offset_def)
next
  case Member
  then show ?thesis by (simp add: within_def kept_offset_def)
next
  case (Stat p)
  then show ?thesis by (cases "offset p") (simp_all add: within_def kept_offset_def)
qed

lemma detect_log_other:
  assumes "l \<noteq> p"
  shows "d_stats (detect_log fs p d) l = d_stats d l
       \<and> (l \<in> set (changedLogs (detect_log fs p d)) \<longleftrightarrow> l \<in> set (changedLogs d))"
proof (cases "skipped fs p (stats_get (d_stats d) p)")
  case True
  then show ?thesis by (simp add: detect_log_skipped)
next
  case False
  from not_skipped_stat [OF False] obtain stat where "statSync (fs p) = Inr stat" by blast
  from detect_log_updated [OF False this] assms show ?thesis by auto
qed

lemma detect_log_changed_sub: "set (changedLogs (detect_log fs p d)) \<subseteq> insert p (set (changedLogs d))"
  using detect_log_other [of _ p fs d] by blast

lemma detect_each_changed_sub: "set (changedLogs (detect_each fs ls d)) \<subseteq> set ls \<union> set (changedLogs d)"
proof (induction ls arbitrary: d)
  case Nil
  then show ?case by simp
next
  case (Cons p ps)
  from Cons.IH [of "detect_log fs p d"] detect_log_changed_sub [of fs p d]
  show ?case by auto
qed

lemma detect_changed_watched: "set (changedLogs (detect fs ls m)) \<subseteq> set ls"
  using detect_each_changed_sub [of fs ls "\<lparr>d_stats = m, changedLogs = [], d_dbg = []\<rparr>"]
  by (simp add: detect_def)

lemma detect_log_settled:
  assumes "d_stats d l = Some st" and "skipped fs l (Stat st)"
  shows "d_stats (detect_log fs p d) l = Some st
       \<and> (l \<in> set (changedLogs (detect_log fs p d)) \<longleftrightarrow> l \<in> set (changedLogs d))"
proof (cases "l = p")
  case True
  from assms have "skipped fs l (stats_get (d_stats d) l)" by (simp add: stats_get_own)
  from detect_log_skipped [OF this] True assms(1) show ?thesis by simp
next
  case False
  from detect_log_other [OF False, of fs d] assms(1) show ?thesis by simp
qed

lemma detect_each_settled:
  "d_stats d l = Some st \<Longrightarrow> skipped fs l (Stat st) \<Longrightarrow>
     d_stats (detect_each fs ls d) l = Some st
     \<and> (l \<in> set (changedLogs (detect_each fs ls d)) \<longleftrightarrow> l \<in> set (changedLogs d))"
proof (induction ls arbitrary: d)
  case Nil
  then show ?case by simp
next
  case (Cons p ps)
  from detect_log_settled [OF Cons.prems, of p]
  have 1: "d_stats (detect_log fs p d) l = Some st"
    and 2: "l \<in> set (changedLogs (detect_log fs p d)) \<longleftrightarrow> l \<in> set (changedLogs d)"
    by simp_all
  from Cons.IH [OF 1 Cons.prems(2)] 2 show ?case by simp
qed

lemma detect_each_notin:
  "l \<notin> set ls \<Longrightarrow>
     d_stats (detect_each fs ls d) l = d_stats d l
     \<and> (l \<in> set (changedLogs (detect_each fs ls d)) \<longleftrightarrow> l \<in> set (changedLogs d))"
proof (induction ls arbitrary: d)
  case Nil
  then show ?case by simp
next
  case (Cons p ps)
  then have "l \<noteq> p" "l \<notin> set ps" by auto
  from detect_log_other [OF this(1), of fs d] Cons.IH [OF this(2), of "detect_log fs p d"]
  show ?case by simp
qed

lemma detect_each_own:
  assumes "d_stats d l = Some prev" and "\<not> skipped fs l (Stat prev)"
    and "statSync (fs l) = Inr stat" and "l \<in> set ls"
  shows "d_stats (detect_each fs ls d) l
           = Some \<lparr>fsize = st_size stat, mtime = st_mtime stat, offset = kept_offset stat (Stat prev)\<rparr>
       \<and> (l \<in> set (changedLogs (detect_each fs ls d))
            \<longleftrightarrow> l \<in> set (changedLogs d) \<or> growing fs (Stat prev) l)"
  using assms(1,4)
proof (induction ls arbitrary: d)
  case Nil
  then show ?case by simp
next
  case (Cons p ps)
  let ?e = "\<lparr>fsize = st_size stat, mtime = st_mtime stat, offset = kept_offset stat (Stat prev)\<rparr>"
  show ?case
  proof (cases "l = p")
    case True
    from Cons.prems(1) have g: "stats_get (d_stats d) l = Stat prev" by (simp add: stats_get_own)
    from assms(2) g have ns: "\<not> skipped fs l (stats_get (d_stats d) l)" by simp
    from detect_log_updated [OF ns assms(3)] g
    have 1: "d_stats (detect_log fs l d) l = Some ?e"
      and 2: "changedLogs (detect_log fs l d)
                = changedLogs d @ (if growing fs (Stat prev) l then [l] else [])"
      by simp_all
    have 3: "skipped fs l (Stat ?e)" using assms(3) by (simp add: skipped_def)
    from detect_each_settled [OF 1 3, of ps] 2 True show ?thesis by auto
  next
    case False
    with Cons.prems(2) have in_ps: "l \<in> set ps" by simp
    from detect_log_other [OF False, of fs d] Cons.prems(1)
    have 1: "d_stats (detect_log fs p d) l = Some prev"
      and 2: "l \<in> set (changedLogs (detect_log fs p d)) \<longleftrightarrow> l \<in> set (changedLogs d)"
      by simp_all
    from Cons.IH [OF 1 in_ps] 2 show ?thesis by simp
  qed
qed

lemma detect_own:
  assumes "m l = Some prev" and "\<not> skipped fs l (Stat prev)"
    and "statSync (fs l) = Inr stat" and "l \<in> set ls"
  shows "d_stats (detect fs ls m) l
           = Some \<lparr>fsize = st_size stat, mtime = st_mtime stat, offset = kept_offset stat (Stat prev)\<rparr>"
    and "l \<in> set (changedLogs (detect fs ls m)) \<longleftrightarrow> growing fs (Stat prev) l"
  using detect_each_own [of "\<lparr>d_stats = m, changedLogs = [], d_dbg = []\<rparr>" l prev fs stat ls] assms
  by (simp_all add: detect_def)

lemma detect_settled:
  assumes "m l = Some st" and "skipped fs l (Stat st)"
  shows "d_stats (detect fs ls m) l = Some st" and "l \<notin> set (changedLogs (detect fs ls m))"
  using detect_each_settled [of "\<lparr>d_stats = m, changedLogs = [], d_dbg = []\<rparr>" l st fs ls] assms
  by (simp_all add: detect_def)

lemma detect_notin:
  assumes "l \<notin> set ls"
  shows "d_stats (detect fs ls m) l = m l"
  using detect_each_notin [OF assms, of fs "\<lparr>d_stats = m, changedLogs = [], d_dbg = []\<rparr>"]
  by (simp add: detect_def)

lemma detect_log_marked:
  assumes "marked fs d"
  shows "marked fs (detect_log fs p d)"
proof (cases "skipped fs p (stats_get (d_stats d) p)")
  case True
  with assms show ?thesis by (simp add: marked_def detect_log_skipped)
next
  case False
  from not_skipped_stat [OF False] obtain stat where st: "statSync (fs p) = Inr stat" "isFile stat"
    by blast
  have nx: "p \<notin> set (changedLogs d)"
  proof
    assume "p \<in> set (changedLogs d)"
    with assms st obtain e where "d_stats d p = Some e" "fsize e = st_size stat" "mtime e = st_mtime stat"
      by (auto simp: marked_def)
    with st have "skipped fs p (stats_get (d_stats d) p)" by (simp add: stats_get_own skipped_def)
    with False show False by simp
  qed
  let ?e = "\<lparr>fsize = st_size stat, mtime = st_mtime stat,
              offset = kept_offset stat (stats_get (d_stats d) p)\<rparr>"
  from detect_log_updated [OF False st(1)]
  have s: "d_stats (detect_log fs p d) = (d_stats d)(p \<mapsto> ?e)"
    and c: "changedLogs (detect_log fs p d)
              = changedLogs d @ (if growing fs (stats_get (d_stats d) p) p then [p] else [])"
    by simp_all
  from assms have dist: "distinct (changedLogs d)" by (simp add: marked_def)
  have d1: "distinct (changedLogs (detect_log fs p d))" using dist nx by (simp add: c)
  have d2: "\<exists>st' stat'. d_stats (detect_log fs p d) l = Some st' \<and> statSync (fs l) = Inr stat'
              \<and> isFile stat' \<and> fsize st' = st_size stat' \<and> mtime st' = st_mtime stat'
              \<and> unread st'"
    if l: "l \<in> set (changedLogs (detect_log fs p d))" for l
  proof (cases "l = p")
    case True
    with l nx have "growing fs (stats_get (d_stats d) p) p" by (simp add: c split: if_splits)
    from growing_unread [OF this st(1)] True st show ?thesis by (simp add: s)
  next
    case False
    with l have "l \<in> set (changedLogs d)" by (simp add: c split: if_splits)
    with assms False show ?thesis by (simp add: marked_def s)
  qed
  from d1 d2 show ?thesis unfolding marked_def by blast
qed

lemma detect_each_marked: "marked fs d \<Longrightarrow> marked fs (detect_each fs ls d)"
  by (induction ls arbitrary: d) (auto intro: detect_log_marked)

lemma detect_marked: "marked fs (detect fs ls m)"
  unfolding detect_def by (rule detect_each_marked) (simp add: marked_def)

lemma detect_distinct: "distinct (changedLogs (detect fs ls m))"
  using detect_marked [of fs ls m] by (simp add: marked_def)

lemma changed_entry:
  assumes "l \<in> set (changedLogs (detect fs ls m))"
  shows "\<exists>st stat off. d_stats (detect fs ls m) l = Some st \<and> statSync (fs l) = Inr stat
           \<and> isFile stat \<and> fsize st = st_size stat \<and> mtime st = st_mtime stat
           \<and> offset st = Some off \<and> off < fsize st"
proof -
  from detect_marked [of fs ls m] assms obtain st stat
    where e: "d_stats (detect fs ls m) l = Some st" "statSync (fs l) = Inr stat" "isFile stat"
      "fsize st = st_size stat" "mtime st = st_mtime stat" "unread st"
    unfolding marked_def by blast
  from e(6) obtain off where "offset st = Some off" "off < fsize st"
    by (auto simp: unread_def split: option.splits)
  with e show ?thesis by blast
qed

lemma detect_log_written:
  "d_stats (detect_log fs p d) l = d_stats d l
   \<or> (\<exists>st. d_stats (detect_log fs p d) l = Some st \<and> within st)"
proof (cases "skipped fs p (stats_get (d_stats d) p)")
  case True
  then show ?thesis by (simp add: detect_log_skipped)
next
  case False
  from not_skipped_stat [OF False] obtain stat where "statSync (fs p) = Inr stat" by blast
  from detect_log_updated [OF False this] kept_offset_within show ?thesis by simp
qed

lemma detect_each_written:
  "d_stats (detect_each fs ls d) l = d_stats d l
   \<or> (\<exists>st. d_stats (detect_each fs ls d) l = Some st \<and> within st)"
proof (induction ls arbitrary: d)
  case Nil
  then show ?case by simp
next
  case (Cons p ps)
  from Cons.IH [of "detect_log fs p d"] detect_log_written [of fs p d l]
  show ?case by auto
qed

lemma detect_written:
  "d_stats (detect fs ls m) l = m l \<or> (\<exists>st. d_stats (detect fs ls m) l = Some st \<and> within st)"
  using detect_each_written [of fs ls "\<lparr>d_stats = m, changedLogs = [], d_dbg = []\<rparr>" l]
  by (simp add: detect_def)

lemma detect_within:
  assumes "offsets_within m"
  shows "offsets_within (d_stats (detect fs ls m))"
  unfolding offsets_within_def
proof (intro allI impI)
  fix l st assume e: "d_stats (detect fs ls m) l = Some st"
  from detect_written [of fs ls m l] show "within st"
  proof
    assume "d_stats (detect fs ls m) l = m l"
    with e assms show ?thesis by (simp add: offsets_within_def)
  next
    assume "\<exists>st. d_stats (detect fs ls m) l = Some st \<and> within st"
    with e show ?thesis by simp
  qed
qed

lemma detect_keeps_offset:
  assumes "m l = Some st" and "offset st = Some off"
    and "case statSync (fs l) of Inl e \<Rightarrow> True | Inr stat \<Rightarrow> off \<le> st_size stat"
  shows "map_option offset (d_stats (detect fs ls m) l) = Some (Some off)"
proof (cases "l \<in> set ls \<and> \<not> skipped fs l (Stat st)")
  case True
  from not_skipped_stat obtain stat where s: "statSync (fs l) = Inr stat" using True by blast
  with assms have "kept_offset stat (Stat st) = Some off" by (simp add: kept_offset_def)
  with detect_own(1) [of m l st fs stat ls] assms(1) s True show ?thesis by simp
next
  case False
  then have "d_stats (detect fs ls m) l = m l"
    using detect_notin [of l ls fs m] detect_settled(1) [of m l st fs ls] assms(1) by auto
  with assms show ?thesis by simp
qed

text \<open>
  A path that is the name of a member of \<^verbatim>\<open>Object.prototype\<close> and has no entry with a
  numeric offset is never marked as changed: the detection writes an entry without an
  offset for it.
\<close>

lemma detect_log_inherited:
  assumes "l \<in> set Object_prototype"
    and "d_stats d l = None \<or> (\<exists>st. d_stats d l = Some st \<and> offset st = None)"
    and "l \<notin> set (changedLogs d)"
  shows "(d_stats (detect_log fs p d) l = None
          \<or> (\<exists>st. d_stats (detect_log fs p d) l = Some st \<and> offset st = None))
       \<and> l \<notin> set (changedLogs (detect_log fs p d))"
proof (cases "l = p")
  case False
  from detect_log_other [OF False, of fs d] assms(2,3) show ?thesis by simp
next
  case True
  show ?thesis
  proof (cases "skipped fs l (stats_get (d_stats d) l)")
    case True
    from detect_log_skipped [OF True] \<open>l = p\<close> assms(2,3) show ?thesis by simp
  next
    case False
    from not_skipped_stat [OF False] obtain stat where st: "statSync (fs l) = Inr stat" by blast
    from assms(1,2) have k: "kept_offset stat (stats_get (d_stats d) l) = None"
      by (auto simp: stats_get_def kept_offset_def)
    then have "\<not> growing fs (stats_get (d_stats d) l) l" using st by (simp add: growing_def)
    with detect_log_updated [OF False st] k \<open>l = p\<close> assms(3) show ?thesis by simp
  qed
qed

lemma detect_inherited:
  assumes "l \<in> set Object_prototype"
    and "m l = None \<or> (\<exists>st. m l = Some st \<and> offset st = None)"
  shows "l \<notin> set (changedLogs (detect fs ls m))"
proof -
  have "(d_stats (detect_each fs ls d) l = None
          \<or> (\<exists>st. d_stats (detect_each fs ls d) l = Some st \<and> offset st = None))
       \<and> l \<notin> set (changedLogs (detect_each fs ls d))"
    if "d_stats d l = None \<or> (\<exists>st. d_stats d l = Some st \<and> offset st = None)"
      and "l \<notin> set (changedLogs d)" for d
    using that
  proof (induction ls arbitrary: d)
    case Nil
    then show ?case by simp
  next
    case (Cons p ps)
    from detect_log_inherited [OF assms(1) Cons.prems, of fs p]
    have 1: "d_stats (detect_log fs p d) l = None
          \<or> (\<exists>st. d_stats (detect_log fs p d) l = Some st \<and> offset st = None)"
      and 2: "l \<notin> set (changedLogs (detect_log fs p d))"
      by simp_all
    from Cons.IH [OF 1 2] show ?case by simp
  qed
  from this [of "\<lparr>d_stats = m, changedLogs = [], d_dbg = []\<rparr>"] assms(2)
  show ?thesis by (simp add: detect_def)
qed

subsection \<open>The methods and the callback\<close>

lemma monitor_rearm:
  "timer (monitor (s\<lparr>timer := None\<rparr>)) = Some (next_timer s)
   \<and> pending (monitor (s\<lparr>timer := None\<rparr>)) = pending s @ [(next_timer s, POLLING_INTERVAL)]
   \<and> cb_calls (monitor (s\<lparr>timer := None\<rparr>)) = cb_calls s
   \<and> heap (monitor (s\<lparr>timer := None\<rparr>)) = heap s
   \<and> stats (monitor (s\<lparr>timer := None\<rparr>)) = stats s
   \<and> logs (monitor (s\<lparr>timer := None\<rparr>)) = logs s
   \<and> scans (monitor (s\<lparr>timer := None\<rparr>)) = scans s
   \<and> dbg (monitor (s\<lparr>timer := None\<rparr>)) = dbg s
   \<and> brain (monitor (s\<lparr>timer := None\<rparr>)) = brain s
   \<and> brain_sets (monitor (s\<lparr>timer := None\<rparr>)) = brain_sets s"
  by (simp add: monitor_def)

lemma monitor_frame:
  "cb_calls (monitor s) = cb_calls s \<and> heap (monitor s) = heap s \<and> stats (monitor s) = stats s
   \<and> next_ref (monitor s) = next_ref s \<and> scans (monitor s) = scans s \<and> dbg (monitor s) = dbg s
   \<and> logs (monitor s) = logs s \<and> brain (monitor s) = brain s \<and> brain_sets (monitor s) = brain_sets s"
  by (simp add: monitor_def split: option.splits)

lemma call_frame:
  "cb_calls (call c s) = cb_calls s \<and> scans (call c s) = scans s \<and> dbg (call c s) = dbg s
   \<and> next_ref s \<le> next_ref (call c s) \<and> (\<forall>r<next_ref s. heap (call c s) r = heap s r)"
  by (cases c)
     (simp_all add: start_def stop_def monitor_def clearTimeout_def addLog_def removeLog_def
        removeAllLogs_def setBrain_def brainLogsChanged_def brainStatsChanged_def Let_def
        split: option.splits)

lemma calls_frame:
  "cb_calls (calls cs s) = cb_calls s \<and> scans (calls cs s) = scans s \<and> dbg (calls cs s) = dbg s
   \<and> next_ref s \<le> next_ref (calls cs s) \<and> (\<forall>r<next_ref s. heap (calls cs s) r = heap s r)"
proof (induction cs arbitrary: s)
  case Nil
  then show ?case by simp
next
  case (Cons c cs)
  from call_frame [of c s] Cons.IH [of "call c s"] show ?case by auto
qed

lemma invoke_cb_frame:
  "cb_calls (invoke_cb cb b s) = cb_calls s @ (case cb of None \<Rightarrow> [] | Some f \<Rightarrow> [b])
   \<and> scans (invoke_cb cb b s) = scans s
   \<and> (\<forall>r<next_ref s. heap (invoke_cb cb b s) r = heap s r)"
proof (cases cb)
  case None
  then show ?thesis by (simp add: invoke_cb_def)
next
  case (Some f)
  obtain cs thrown where f: "f b s = (cs, thrown)" by (cases "f b s")
  let ?s = "s\<lparr>cb_calls := cb_calls s @ [b]\<rparr>"
  from calls_frame [of cs ?s] Some f show ?thesis
    by (cases thrown) (simp_all add: invoke_cb_def)
qed

lemma invoke_cb_dbg:
  "dbg (invoke_cb cb b s)
     = dbg s @ (case cb of None \<Rightarrow> []
                | Some f \<Rightarrow> (case snd (f b s) of None \<Rightarrow> [] | Some e \<Rightarrow> [CallbackFailed e]))"
proof (cases cb)
  case None
  then show ?thesis by (simp add: invoke_cb_def)
next
  case (Some f)
  obtain cs thrown where f: "f b s = (cs, thrown)" by (cases "f b s")
  let ?s = "s\<lparr>cb_calls := cb_calls s @ [b]\<rparr>"
  from calls_frame [of cs ?s] Some f show ?thesis
    by (cases thrown) (simp_all add: invoke_cb_def)
qed

subsection \<open>One cycle\<close>

lemma detect_scan_total:
  "\<exists>sc. scanLogs env fs' (changedLogs (detect fs ls m)) (d_stats (detect fs ls m)) = Some sc"
proof -
  from detect_marked [of fs ls m]
  have "stats_ok (changedLogs (detect fs ls m)) (d_stats (detect fs ls m))"
    by (fastforce simp: marked_def stats_ok_def unread_def within_def split: option.splits)
  then show ?thesis unfolding scanLogs_def by (intro scan_total) simp
qed

lemma cycle_unchanged:
  assumes "t \<in> fst ` set (pending s)" and "scans s = []"
    and "changedLogs (detect fs (logs s) (the_stats s)) = []"
  shows "cycle env fs cb t s =
           Some (monitor (s\<lparr>pending := filter (\<lambda>p. fst p \<noteq> t) (pending s),
                           heap := (heap s)(stats s := d_stats (detect fs (logs s) (the_stats s))),
                           dbg := dbg s @ d_dbg (detect fs (logs s) (the_stats s)),
                           timer := None\<rparr>))"
  using assms
  by (simp add: cycle_def timer_fires_def clearTimeout_def the_stats_def Let_def monitor_frame)

lemma cycle_changed:
  assumes "t \<in> fst ` set (pending s)" and "scans s = []"
    and "changedLogs (detect fs (logs s) (the_stats s)) \<noteq> []"
  shows "\<exists>sc. scanLogs env fs (changedLogs (detect fs (logs s) (the_stats s)))
                 (d_stats (detect fs (logs s) (the_stats s))) = Some sc
           \<and> cycle env fs cb t s
               = Some (monitor ((invoke_cb cb (files sc) (scanned fs t sc s))\<lparr>timer := None\<rparr>))"
proof -
  let ?d = "detect fs (logs s) (the_stats s)"
  from detect_scan_total obtain sc
    where sc: "scanLogs env fs (changedLogs ?d) (d_stats ?d) = Some sc" by blast
  have "cycle env fs cb t s
          = Some (monitor ((invoke_cb cb (files sc) (scanned fs t sc s))\<lparr>timer := None\<rparr>))"
    using assms sc
    by (cases "brain s")
       (simp_all add: cycle_def timer_fires_def scan_completes_def clearTimeout_def the_stats_def
          scanned_def Let_def)
  with sc show ?thesis by blast
qed

lemma scanLogs_dom:
  assumes "scanLogs env fs ls m = Some sc"
  shows "dom (files sc) \<subseteq> set ls"
proof
  fix l assume "l \<in> dom (files sc)"
  then have ne: "files sc l \<noteq> None" by auto
  show "l \<in> set ls"
  proof (rule ccontr)
    assume "l \<notin> set ls"
    from scan_frame [OF assms [unfolded scanLogs_def] this] ne show False by simp
  qed
qed

lemma rearmed:
  "\<exists>k. timer (monitor (s\<lparr>timer := None\<rparr>)) = Some k
       \<and> (k, POLLING_INTERVAL) \<in> set (pending (monitor (s\<lparr>timer := None\<rparr>)))"
  by (simp add: monitor_def)


subsection \<open>When the callback is called\<close>

text \<open>
  Claim C6, amended. In a cycle that starts with no scan running: the timer callback
  alone never calls the result callback; the cycle ends with the next timeout pending.
  When no path changed, the cycle is that callback alone (the next timeout is set within
  it) and the result callback is not called. When a path changed, the result callback is
  called exactly once, with the batch of \<^verbatim>\<open>scanLogs\<close>, whose entries are of changed paths
  only. The batch can be empty, as the example after the theorem shows.
\<close>

theorem cycle_callback:
  assumes "t \<in> fst ` set (pending s)" and "scans s = []"
  shows "\<exists>s1 s'. timer_fires fs t s = Some s1 \<and> cb_calls s1 = cb_calls s
           \<and> cycle env fs (Some f) t s = Some s'
           \<and> (\<exists>k. timer s' = Some k \<and> (k, POLLING_INTERVAL) \<in> set (pending s'))
           \<and> (if changedLogs (detect fs (logs s) (the_stats s)) = []
               then s' = s1 \<and> cb_calls s' = cb_calls s
               else \<exists>sc. scanLogs env fs (changedLogs (detect fs (logs s) (the_stats s)))
                            (d_stats (detect fs (logs s) (the_stats s))) = Some sc
                      \<and> cb_calls s' = cb_calls s @ [files sc]
                      \<and> dom (files sc) \<subseteq> set (changedLogs (detect fs (logs s) (the_stats s))))"
proof -
  let ?d = "detect fs (logs s) (the_stats s)"
  obtain s1 where s1: "timer_fires fs t s = Some s1" "cb_calls s1 = cb_calls s"
    using assms(1)
    by (cases "changedLogs ?d = []")
       (simp_all add: timer_fires_def clearTimeout_def the_stats_def Let_def monitor_frame)
  show ?thesis
  proof (cases "changedLogs ?d = []")
    case True
    let ?s' = "monitor (s\<lparr>pending := filter (\<lambda>p. fst p \<noteq> t) (pending s),
                           heap := (heap s)(stats s := d_stats ?d),
                           dbg := dbg s @ d_dbg ?d, timer := None\<rparr>)"
    from cycle_unchanged [OF assms True] have c: "cycle env fs (Some f) t s = Some ?s'" .
    have e: "s1 = ?s'"
      using s1(1) assms True by (simp add: cycle_def split: if_splits)
         (simp add: timer_fires_def clearTimeout_def the_stats_def Let_def)
    have r: "\<exists>k. timer ?s' = Some k \<and> (k, POLLING_INTERVAL) \<in> set (pending ?s')"
      by (simp add: monitor_def)
    have "cb_calls ?s' = cb_calls s" by (simp add: monitor_frame)
    with True s1 c e r show ?thesis by auto
  next
    case False
    from cycle_changed [OF assms False, of env "Some f"] obtain sc
      where sc: "scanLogs env fs (changedLogs ?d) (d_stats ?d) = Some sc"
        and c: "cycle env fs (Some f) t s
                  = Some (monitor ((invoke_cb (Some f) (files sc) (scanned fs t sc s))\<lparr>timer := None\<rparr>))"
      by blast
    let ?s3 = "invoke_cb (Some f) (files sc) (scanned fs t sc s)"
    have cc: "cb_calls (monitor (?s3\<lparr>timer := None\<rparr>)) = cb_calls s @ [files sc]"
      using invoke_cb_frame [of "Some f" "files sc" "scanned fs t sc s"]
      by (simp add: monitor_rearm scanned_def Let_def split: option.splits)
    from False s1 sc c cc rearmed [of ?s3] scanLogs_dom [OF sc] show ?thesis by auto
  qed
qed

theorem cycle_callback_witness:
  "0 \<in> fst ` set (pending (start (addLog ''a.log'' LogScanner)))
   \<and> scans (start (addLog ''a.log'' LogScanner)) = []
   \<and> (\<exists>s'. cycle env0 ((\<lambda>p. missing)(''a.log'' := regular 3 1 ''abc'')) (Some quiet) 0
                (start (addLog ''a.log'' LogScanner)) = Some s'
           \<and> (\<exists>k. timer s' = Some k \<and> (k, POLLING_INTERVAL) \<in> set (pending s')))"
proof -
  have h1: "0 \<in> fst ` set (pending (start (addLog ''a.log'' LogScanner)))"
    by (simp add: start_def started_def monitor_def addLog_def LogScanner_def)
  have h2: "scans (start (addLog ''a.log'' LogScanner)) = []"
    by (simp add: start_def started_def monitor_def addLog_def LogScanner_def)
  from cycle_callback [OF h1 h2, of "(\<lambda>p. missing)(''a.log'' := regular 3 1 ''abc'')" env0 quiet]
  have "\<exists>s'. cycle env0 ((\<lambda>p. missing)(''a.log'' := regular 3 1 ''abc'')) (Some quiet) 0
                (start (addLog ''a.log'' LogScanner)) = Some s'
           \<and> (\<exists>k. timer s' = Some k \<and> (k, POLLING_INTERVAL) \<in> set (pending s'))"
    by blast
  with h1 h2 show ?thesis by blast
qed

text \<open>
  Claim C6 as stated fails: the callback is called with an empty batch. The scanner
  watches \<^verbatim>\<open>a.log\<close>, a regular file of three bytes, new to the scanner, that cannot be
  opened: the path is changed, and the callback receives the empty batch.
\<close>

theorem callback_empty_batch:
  "changedLogs (detect ((\<lambda>p. missing)(''a.log'' := (regular 3 1 ''abc'')\<lparr>open_err := Some ''EACCES''\<rparr>))
       (logs (start (addLog ''a.log'' LogScanner))) (the_stats (start (addLog ''a.log'' LogScanner))))
     = [''a.log'']
   \<and> map_option cb_calls
       (cycle env0 ((\<lambda>p. missing)(''a.log'' := (regular 3 1 ''abc'')\<lparr>open_err := Some ''EACCES''\<rparr>))
          (Some quiet) 0 (start (addLog ''a.log'' LogScanner)))
     = Some [Map.empty]"
  by (simp add: cycle_def timer_fires_def scan_completes_def scanLogs_def detect_def detect_log_def
      stats_get_def Object_prototype_def clearTimeout_def the_stats_def invoke_cb_def monitor_def
      start_def started_def addLog_def LogScanner_def regular_def missing_def quiet_def env0_def
      Let_def)

lemma watching_one:
  "0 \<in> fst ` set (pending (start (addLog ''a.log'' LogScanner)))"
  "scans (start (addLog ''a.log'' LogScanner)) = []"
  "changedLogs (detect ((\<lambda>p. missing)(''a.log'' := regular 3 1 ''abc''))
     (logs (start (addLog ''a.log'' LogScanner))) (the_stats (start (addLog ''a.log'' LogScanner)))) \<noteq> []"
  by (simp_all add: start_def started_def monitor_def addLog_def LogScanner_def the_stats_def
      detect_def detect_log_def stats_get_def Object_prototype_def regular_def Let_def)


lemma invoke_cb_thrown:
  "invoke_cb (Some f) b s
     = (invoke_cb (Some (\<lambda>b' s'. (fst (f b' s'), None))) b s)
         \<lparr>dbg := dbg (invoke_cb (Some (\<lambda>b' s'. (fst (f b' s'), None))) b s)
                  @ (case snd (f b s) of None \<Rightarrow> [] | Some e \<Rightarrow> [CallbackFailed e])\<rparr>"
  by (cases "f b s") (auto simp: invoke_cb_def Let_def split: option.splits)

lemma monitor_dbg_commute:
  "monitor (s\<lparr>dbg := ms, timer := None\<rparr>) = (monitor (s\<lparr>timer := None\<rparr>))\<lparr>dbg := ms\<rparr>"
  by (simp add: monitor_def)


subsection \<open>A callback that throws\<close>

text \<open>
  Claim C8. In a cycle in which a path changed (so that the callback is called), let the
  callback \<open>f\<close> make its calls on the scanner and throw. The cycle completes. Its
  debug output is that of the cycle with the callback that makes the same calls and
  returns, followed by the message of the caught exception; every other part of the
  scanner, the stored per-path state included, is the same as after that cycle; and the
  next timeout is pending.
\<close>

theorem callback_exception:
  assumes "t \<in> fst ` set (pending s)" and "scans s = []"
    and "changedLogs (detect fs (logs s) (the_stats s)) \<noteq> []"
  shows "\<exists>sc s' s''.
           scanLogs env fs (changedLogs (detect fs (logs s) (the_stats s)))
             (d_stats (detect fs (logs s) (the_stats s))) = Some sc
         \<and> cycle env fs (Some f) t s = Some s'
         \<and> cycle env fs (Some (\<lambda>batch x. (fst (f batch x), None))) t s = Some s''
         \<and> dbg s' = dbg s'' @ (case snd (f (files sc) (scanned fs t sc s)) of
                                 None \<Rightarrow> [] | Some e \<Rightarrow> [CallbackFailed e])
         \<and> s' = s''\<lparr>dbg := dbg s'\<rparr>
         \<and> heap s' = heap s'' \<and> stats s' = stats s'' \<and> the_stats s' = the_stats s''
         \<and> (\<exists>k. timer s' = Some k \<and> (k, POLLING_INTERVAL) \<in> set (pending s'))"
proof -
  let ?d = "detect fs (logs s) (the_stats s)"
  let ?g = "\<lambda>batch x. (fst (f batch x), None)"
  from cycle_changed [OF assms, of env "Some f"] obtain sc
    where sc: "scanLogs env fs (changedLogs ?d) (d_stats ?d) = Some sc"
      and c: "cycle env fs (Some f) t s
                = Some (monitor ((invoke_cb (Some f) (files sc) (scanned fs t sc s))\<lparr>timer := None\<rparr>))"
    by blast
  from cycle_changed [OF assms, of env "Some ?g"] sc
  have c': "cycle env fs (Some ?g) t s
                = Some (monitor ((invoke_cb (Some ?g) (files sc) (scanned fs t sc s))\<lparr>timer := None\<rparr>))"
    by simp
  let ?x = "scanned fs t sc s"
  let ?s3 = "invoke_cb (Some ?g) (files sc) ?x"
  let ?e = "case snd (f (files sc) ?x) of None \<Rightarrow> [] | Some e \<Rightarrow> [CallbackFailed e]"
  let ?s' = "monitor ((invoke_cb (Some f) (files sc) ?x)\<lparr>timer := None\<rparr>)"
  let ?s'' = "monitor (?s3\<lparr>timer := None\<rparr>)"
  have e: "?s' = ?s''\<lparr>dbg := dbg ?s3 @ ?e\<rparr>"
    by (subst invoke_cb_thrown) (simp add: monitor_dbg_commute)
  have d: "dbg ?s'' = dbg ?s3" by (simp add: monitor_rearm)
  have 1: "dbg ?s' = dbg ?s'' @ ?e" by (subst e) (simp add: d)
  have 2: "?s' = ?s''\<lparr>dbg := dbg ?s'\<rparr>" by (subst (2) e) (subst e, simp)
  have 3: "heap ?s' = heap ?s''" "stats ?s' = stats ?s''" by (subst e, simp)+
  then have 4: "the_stats ?s' = the_stats ?s''" by (simp add: the_stats_def)
  from sc c c' 1 2 3 4 rearmed [of "invoke_cb (Some f) (files sc) ?x"]
  show ?thesis by blast
qed


theorem callback_exception_witness:
  "0 \<in> fst ` set (pending (start (addLog ''a.log'' LogScanner)))
   \<and> scans (start (addLog ''a.log'' LogScanner)) = []
   \<and> changedLogs (detect ((\<lambda>p. missing)(''a.log'' := regular 3 1 ''abc''))
        (logs (start (addLog ''a.log'' LogScanner))) (the_stats (start (addLog ''a.log'' LogScanner)))) \<noteq> []
   \<and> (\<exists>s' s''. cycle env0 ((\<lambda>p. missing)(''a.log'' := regular 3 1 ''abc'')) (Some failing) 0
                   (start (addLog ''a.log'' LogScanner)) = Some s'
         \<and> cycle env0 ((\<lambda>p. missing)(''a.log'' := regular 3 1 ''abc''))
              (Some (\<lambda>batch x. (fst (failing batch x), None))) 0
              (start (addLog ''a.log'' LogScanner)) = Some s''
         \<and> dbg s' = dbg s'' @ [CallbackFailed ''boom'']
         \<and> the_stats s' = the_stats s''
         \<and> (\<exists>k. timer s' = Some k \<and> (k, POLLING_INTERVAL) \<in> set (pending s')))"
proof -
  from callback_exception [OF watching_one, of env0 failing]
  have "\<exists>s' s''. cycle env0 ((\<lambda>p. missing)(''a.log'' := regular 3 1 ''abc'')) (Some failing) 0
                   (start (addLog ''a.log'' LogScanner)) = Some s'
         \<and> cycle env0 ((\<lambda>p. missing)(''a.log'' := regular 3 1 ''abc''))
              (Some (\<lambda>batch x. (fst (failing batch x), None))) 0
              (start (addLog ''a.log'' LogScanner)) = Some s''
         \<and> dbg s' = dbg s'' @ [CallbackFailed ''boom'']
         \<and> the_stats s' = the_stats s''
         \<and> (\<exists>k. timer s' = Some k \<and> (k, POLLING_INTERVAL) \<in> set (pending s'))"
    by (simp add: failing_def) blast
  with watching_one show ?thesis by blast
qed


subsection \<open>\<^verbatim>\<open>stop\<close> while a scan is running\<close>

text \<open>
  Claim C10. The timer has fired and started a scan; \<^verbatim>\<open>stop()\<close> is called before the scan
  completes. After \<^verbatim>\<open>stop\<close> the scanner is not started. The scan still completes, sets
  \<^verbatim>\<open>_timer\<close> to null and calls \<^verbatim>\<open>monitor\<close>: the scanner is started again with a new
  timeout pending, which can fire, without any call of \<^verbatim>\<open>start\<close>.
\<close>

theorem stop_during_scan:
  assumes "t \<in> fst ` set (pending s)" and "scans s = []"
    and "changedLogs (detect fs (logs s) (the_stats s)) \<noteq> []"
  shows "\<exists>s1 s2 k. timer_fires fs t s = Some s1
           \<and> \<not> started (stop s1)
           \<and> scan_completes env fs cb (stop s1) = Some s2
           \<and> started s2 \<and> timer s2 = Some k \<and> (k, POLLING_INTERVAL) \<in> set (pending s2)
           \<and> timer_fires fs' k s2 \<noteq> None"
proof -
  let ?d = "detect fs (logs s) (the_stats s)"
  from detect_scan_total obtain sc
    where sc: "scanLogs env fs (changedLogs ?d) (d_stats ?d) = Some sc" by blast
  let ?s1 = "s\<lparr>pending := filter (\<lambda>p. fst p \<noteq> t) (pending s),
               heap := (heap s)(stats s := d_stats ?d),
               dbg := dbg s @ d_dbg ?d @ LogsChanged # map LogChanged (changedLogs ?d),
               scans := [(changedLogs ?d, stats s)]\<rparr>"
  have f: "timer_fires fs t s = Some ?s1"
    using assms by (simp add: timer_fires_def clearTimeout_def the_stats_def Let_def)
  have ns: "\<not> started (stop ?s1)" by (simp add: started_def stop_def Let_def)
  have sp: "scans (stop ?s1) = [(changedLogs ?d, stats s)]" "heap (stop ?s1) (stats s) = d_stats ?d"
    by (simp_all add: stop_def clearTimeout_def Let_def split: option.splits)
  obtain s3 where c: "scan_completes env fs cb (stop ?s1) = Some (monitor (s3\<lparr>timer := None\<rparr>))"
    using sp sc by (simp add: scan_completes_def Let_def)
  let ?s2 = "monitor (s3\<lparr>timer := None\<rparr>)"
  from rearmed [of s3] obtain k where k: "timer ?s2 = Some k" "(k, POLLING_INTERVAL) \<in> set (pending ?s2)"
    by blast
  then have st: "started ?s2" by (simp add: started_def)
  from k(2) have "k \<in> fst ` set (pending ?s2)" by force
  then have nf: "timer_fires fs' k ?s2 \<noteq> None"
    by (simp add: timer_fires_def Let_def)
  from f ns c st k nf show ?thesis by blast
qed

theorem stop_during_scan_witness:
  "0 \<in> fst ` set (pending (start (addLog ''a.log'' LogScanner)))
   \<and> scans (start (addLog ''a.log'' LogScanner)) = []
   \<and> changedLogs (detect ((\<lambda>p. missing)(''a.log'' := regular 3 1 ''abc''))
        (logs (start (addLog ''a.log'' LogScanner))) (the_stats (start (addLog ''a.log'' LogScanner)))) \<noteq> []
   \<and> (\<exists>s1 s2. timer_fires ((\<lambda>p. missing)(''a.log'' := regular 3 1 ''abc'')) 0
                  (start (addLog ''a.log'' LogScanner)) = Some s1
         \<and> \<not> started (stop s1)
         \<and> scan_completes env0 ((\<lambda>p. missing)(''a.log'' := regular 3 1 ''abc'')) (Some quiet) (stop s1)
             = Some s2
         \<and> started s2)"
proof -
  from stop_during_scan [OF watching_one, of env0 "Some quiet"]
  have "\<exists>s1 s2. timer_fires ((\<lambda>p. missing)(''a.log'' := regular 3 1 ''abc'')) 0
                  (start (addLog ''a.log'' LogScanner)) = Some s1
         \<and> \<not> started (stop s1)
         \<and> scan_completes env0 ((\<lambda>p. missing)(''a.log'' := regular 3 1 ''abc'')) (Some quiet) (stop s1)
             = Some s2
         \<and> started s2"
    by blast
  with watching_one show ?thesis by blast
qed

lemmas ex_defs =
  cycle_def timer_fires_def scan_completes_def scanLogs_def detect_def detect_log_def
  stats_get_def Object_prototype_def files_put_def
  clearTimeout_def the_stats_def invoke_cb_def monitor_def start_def started_def addLog_def
  LogScanner_def regular_def missing_def quiet_def env0_def Let_def fs_read_def closeFd_def
  stored_def delivered_def changed_in_def ex_scanner_def ex_watching_def ex_fs_first_def
  ex_fs_open_fails_def ex_fs_big_def ex_fs_big_closed_def ex_fs_read_fails_def ex_fs_cut_def

lemmas ex_brain_defs = ex_loaded_def ex_fs_same_def ex_resumed_def setBrain_def
  brainLogsChanged_def brainStatsChanged_def

subsection \<open>What a cycle does with one path\<close>

lemma scan_open_failed:
  "scan env fs ls s = Some s' \<Longrightarrow> s_stats s l = Some st \<Longrightarrow> open_err (fs l) = Some e \<Longrightarrow>
     s_stats s' l = Some st \<and> files s' l = files s l"
proof (induction ls arbitrary: s)
  case Nil
  then show ?case by simp
next
  case (Cons p ps)
  from Cons.prems(1) obtain s1 where s1: "scan env fs [p] s = Some s1" "scan env fs ps s1 = Some s'"
    by (subst (asm) scan_Cons) (auto split: option.splits)
  have "s_stats s1 l = Some st \<and> files s1 l = files s l"
  proof (cases "p = l")
    case True
    with s1(1) Cons.prems(2,3) show ?thesis by (auto simp: stats_get_own)
  next
    case False
    then have "l \<noteq> p" by simp
    from scan_single_frame [OF s1(1) this] Cons.prems(2) show ?thesis by simp
  qed
  with Cons.IH [OF s1(2) _ Cons.prems(3)] show ?case by simp
qed

lemma scan_read:
  assumes "scan env fs ls s = Some s'" and "distinct ls" and "l \<in> set ls"
    and "s_stats s l = Some st" and "open_err (fs l) = None"
  shows "\<exists>r st'. readAll env (fs l) st [] = Some (r, st') \<and> s_stats s' l = Some st'
           \<and> files s' l = (case r of Inl e \<Rightarrow> files s l | Inr out \<Rightarrow> files_put (files s) l out l)"
proof -
  from scan_at [OF assms(1-3)] obtain s0 s1
    where s0: "s_stats s0 l = s_stats s l" "files s0 l = files s l"
      and s1: "scan env fs [l] s0 = Some s1" "s_stats s' l = s_stats s1 l" "files s' l = files s1 l"
    by blast
  from s0 assms(4) have st: "stats_get (s_stats s0) l = Stat st" by (simp add: stats_get_own)
  from s1(1) st assms(5) obtain r st' where r: "readAll env (fs l) st [] = Some (r, st')"
    by (cases "readAll env (fs l) st []") auto
  from s1(1) st assms(5) r have "s_stats s1 l = Some st'
      \<and> files s1 l = (case r of Inl e \<Rightarrow> files s0 l | Inr out \<Rightarrow> files_put (files s0) l out l)"
    by (cases r) auto
  moreover have "files_put (files s0) l out l = files_put (files s) l out l" for out
    using s0(2) by (auto simp: files_put_def)
  ultimately show ?thesis using r s0(2) s1(2,3) by (cases r) simp_all
qed

lemma scanned_open_failed:
  assumes "scanLogs env fs ls m = Some sc" and "m l = Some st" and "open_err (fs l) = Some e"
  shows "files sc l = None \<and> s_stats sc l = Some st"
  using scan_open_failed [OF assms(1) [unfolded scanLogs_def] _ assms(3), of st] assms(2) by simp

lemma scanned_frame:
  assumes "scanLogs env fs ls m = Some sc" and "l \<notin> set ls"
  shows "files sc l = None \<and> s_stats sc l = m l"
  using scan_frame [OF assms(1) [unfolded scanLogs_def] assms(2)] by simp

lemma scanned_read:
  assumes "scanLogs env fs ls m = Some sc" and "distinct ls" and "l \<in> set ls"
    and "m l = Some st" and "open_err (fs l) = None"
  shows "\<exists>r st'. readAll env (fs l) st [] = Some (r, st') \<and> s_stats sc l = Some st'
           \<and> files sc l = (case r of
                             Inl e \<Rightarrow> None
                           | Inr out \<Rightarrow> if l = ''__proto__'' then None else Some out)"
proof -
  from scan_read [OF assms(1) [unfolded scanLogs_def] assms(2,3) _ assms(5), of st] assms(4)
  obtain r st' where r: "readAll env (fs l) st [] = Some (r, st')" "s_stats sc l = Some st'"
    and f: "files sc l
             = (case r of
                  Inl e \<Rightarrow> files \<lparr>s_stats = m, files = Map.empty, s_dbg = []\<rparr> l
                | Inr out \<Rightarrow> files_put (files \<lparr>s_stats = m, files = Map.empty, s_dbg = []\<rparr>) l out l)"
    by auto
  from f have "files sc l = (case r of
                               Inl e \<Rightarrow> None
                             | Inr out \<Rightarrow> if l = ''__proto__'' then None else Some out)"
    by (cases r) (simp_all add: files_put_def)
  with r show ?thesis by blast
qed

lemma scanned_read_all:
  assumes "scanLogs env fs ls m = Some sc" and "distinct ls" and "l \<in> set ls"
    and "m l = Some st" and "offset st = Some off" and "off \<le> fsize st"
    and "open_err (fs l) = None" and "\<forall>pos. read_err (fs l) pos = None"
    and "fsize st \<le> length (contents (fs l))" and "l \<noteq> ''__proto__''"
  shows "files sc l
           = Some (concat (map (toString env)
                (chunks_of MAX_FILE_READ_SIZE (take (fsize st - off) (drop off (contents (fs l)))))))
       \<and> s_stats sc l = Some (st\<lparr>offset := Some (fsize st)\<rparr>)"
  using readAll_full [OF assms(8,9,5,6), of env "[]"] scanned_read [OF assms(1-4,7)] assms(10)
  by auto

lemma scanned_read_failed:
  assumes "scanLogs env fs ls m = Some sc" and "distinct ls" and "l \<in> set ls"
    and "m l = Some st" and "offset st = Some off" and "open_err (fs l) = None"
    and "\<forall>i<length ns. 0 < ns ! i \<and>
           (\<exists>buffer. fs_read env (fs l)
                        (min (fsize st - (off + sum_list (take i ns))) MAX_FILE_READ_SIZE)
                        (off + sum_list (take i ns)) = Inr (ns ! i, buffer))"
    and "read_err (fs l) (off + sum_list ns) = Some e"
    and "off + sum_list ns < fsize st"
  shows "files sc l = None \<and> s_stats sc l = Some (st\<lparr>offset := Some (off + sum_list ns)\<rparr>)"
  using readAll_fails_after [OF assms(5,7,8,9), of "[]"] scanned_read [OF assms(1-4,6)]
  by auto

lemma cycle_changed_state:
  assumes "t \<in> fst ` set (pending s)" and "scans s = []" and "stats s < next_ref s"
    and "changedLogs (detect fs (logs s) (the_stats s)) \<noteq> []"
  shows "\<exists>sc s'. scanLogs env fs (changedLogs (detect fs (logs s) (the_stats s)))
                    (d_stats (detect fs (logs s) (the_stats s))) = Some sc
           \<and> cycle env fs cb t s = Some s'
           \<and> cb_calls s' = cb_calls s @ (case cb of None \<Rightarrow> [] | Some f \<Rightarrow> [files sc])
           \<and> heap s' (stats s) = s_stats sc"
proof -
  let ?d = "detect fs (logs s) (the_stats s)"
  from cycle_changed [OF assms(1,2,4), of env cb] obtain sc
    where sc: "scanLogs env fs (changedLogs ?d) (d_stats ?d) = Some sc"
      and c: "cycle env fs cb t s
                = Some (monitor ((invoke_cb cb (files sc) (scanned fs t sc s))\<lparr>timer := None\<rparr>))"
    by blast
  let ?y = "scanned fs t sc s"
  let ?s' = "monitor ((invoke_cb cb (files sc) ?y)\<lparr>timer := None\<rparr>)"
  have y: "next_ref ?y = next_ref s" "heap ?y (stats s) = s_stats sc" "cb_calls ?y = cb_calls s"
    by (simp_all add: scanned_def Let_def split: option.splits)
  from invoke_cb_frame [of cb "files sc" ?y] y assms(3)
  have "cb_calls ?s' = cb_calls s @ (case cb of None \<Rightarrow> [] | Some f \<Rightarrow> [files sc])"
    and "heap ?s' (stats s) = s_stats sc"
    by (simp_all add: monitor_rearm)
  with sc c show ?thesis by blast
qed

lemma ex_watching_ready:
  "0 \<in> fst ` set (pending ex_watching)" "scans ex_watching = []"
  "stats ex_watching < next_ref ex_watching"
  by (simp_all add: ex_defs)


subsection \<open>A file that fails to open\<close>

text \<open>
  Claim C1, amended. In a cycle in which two watched paths \<open>a\<close> and \<open>b\<close> are marked as
  changed, the open of \<open>a\<close> fails and \<open>b\<close> (a path other than \<^verbatim>\<open>__proto__\<close>) opens and is
  read without error: the callback is called once, with a batch that has no entry for \<open>a\<close>
  and holds for \<open>b\<close> the bytes from its offset to its size, chunk by chunk as text. The
  scan leaves the entry of \<open>a\<close> as the detection has written it: size and modification
  time are those of the new stat, and the offset is not advanced; the entry is not what
  was stored before the cycle. When \<open>a\<close> had an entry with a numeric offset before the
  cycle, the offset is that one, or 0 when the file is shorter than it. A detection that finds \<open>a\<close> with the same stat again leaves the entry as
  it is and does not mark \<open>a\<close>: the open is not tried again until size or time change. The
  entry is that of the object \<^verbatim>\<open>_stats\<close> referred to when the cycle began.
\<close>

theorem open_failure_in_cycle:
  assumes "t \<in> fst ` set (pending s)" and "scans s = []" and "stats s < next_ref s"
    and "a \<in> set (changedLogs (detect fs (logs s) (the_stats s)))"
    and "open_err (fs a) = Some e"
    and "b \<in> set (changedLogs (detect fs (logs s) (the_stats s)))"
    and "d_stats (detect fs (logs s) (the_stats s)) b = Some st_b" and "offset st_b = Some off_b"
    and "open_err (fs b) = None" and "b \<noteq> ''__proto__''"
    and "\<forall>pos. read_err (fs b) pos = None" and "fsize st_b \<le> length (contents (fs b))"
  shows "\<exists>s' batch stat_a off_a.
           cycle env fs (Some f) t s = Some s'
         \<and> cb_calls s' = cb_calls s @ [batch]
         \<and> batch a = None
         \<and> batch b = Some (concat (map (toString env)
              (chunks_of MAX_FILE_READ_SIZE
                 (take (fsize st_b - off_b) (drop off_b (contents (fs b)))))))
         \<and> a \<in> set (logs s) \<and> b \<in> set (logs s)
         \<and> statSync (fs a) = Inr stat_a
         \<and> heap s' (stats s) a
             = Some \<lparr>fsize = st_size stat_a, mtime = st_mtime stat_a, offset = Some off_a\<rparr>
         \<and> heap s' (stats s) a = d_stats (detect fs (logs s) (the_stats s)) a
         \<and> heap s' (stats s) a \<noteq> the_stats s a
         \<and> (\<forall>prev off. the_stats s a = Some prev \<and> offset prev = Some off
               \<longrightarrow> off_a = (if st_size stat_a < off then 0 else off))
         \<and> (\<forall>fs' ls. statSync (fs' a) = statSync (fs a)
               \<longrightarrow> a \<notin> set (changedLogs (detect fs' ls (heap s' (stats s))))
                 \<and> d_stats (detect fs' ls (heap s' (stats s))) a = heap s' (stats s) a)"
proof -
  let ?d = "detect fs (logs s) (the_stats s)"
  from assms(4) have ne: "changedLogs ?d \<noteq> []" by auto
  from cycle_changed_state [OF assms(1-3) ne, of env "Some f"] obtain sc s'
    where sc: "scanLogs env fs (changedLogs ?d) (d_stats ?d) = Some sc"
      and c: "cycle env fs (Some f) t s = Some s'" "cb_calls s' = cb_calls s @ [files sc]"
             "heap s' (stats s) = s_stats sc"
    by auto
  from changed_entry [OF assms(4)] obtain st_a stat_a off_a
    where ea: "d_stats ?d a = Some st_a" "statSync (fs a) = Inr stat_a"
      "fsize st_a = st_size stat_a" "mtime st_a = st_mtime stat_a" "offset st_a = Some off_a"
      "isFile stat_a"
    by blast
  let ?e = "\<lparr>fsize = st_size stat_a, mtime = st_mtime stat_a, offset = Some off_a\<rparr>"
  from ea(3-5) have sta: "st_a = ?e" by (cases st_a) simp
  from scanned_open_failed [OF sc ea(1) assms(5)]
  have fa: "files sc a = None" "s_stats sc a = Some st_a" by simp_all
  from changed_entry [OF assms(6)] assms(7,8) have lb: "off_b \<le> fsize st_b" by auto
  from scanned_read_all [OF sc detect_distinct assms(6,7,8) lb assms(9,11,12,10)]
  have fb: "files sc b = Some (concat (map (toString env)
              (chunks_of MAX_FILE_READ_SIZE
                 (take (fsize st_b - off_b) (drop off_b (contents (fs b)))))))"
    by simp
  from detect_changed_watched [of fs "logs s" "the_stats s"] assms(4,6)
  have w: "a \<in> set (logs s)" "b \<in> set (logs s)" by auto
  have before: "off_a = (if st_size stat_a < off then 0 else off)"
    if p: "the_stats s a = Some prev" "offset prev = Some off" for prev off
  proof -
    have ns: "\<not> skipped fs a (Stat prev)"
      using detect_settled(2) [of "the_stats s" a prev fs "logs s"] p(1) assms(4) by auto
    from detect_own(1) [of "the_stats s" a prev fs stat_a "logs s"] p(1) ns ea(2) w(1)
    have "d_stats ?d a = Some \<lparr>fsize = st_size stat_a, mtime = st_mtime stat_a,
                                 offset = kept_offset stat_a (Stat prev)\<rparr>"
      by simp
    with ea(1) sta have "kept_offset stat_a (Stat prev) = Some off_a" by simp
    with p(2) show ?thesis by (simp add: kept_offset_def split: if_splits)
  qed
  have h: "heap s' (stats s) a = Some st_a" using c(3) fa(2) by simp
  have differs: "heap s' (stats s) a \<noteq> the_stats s a"
  proof (cases "the_stats s a")
    case None
    with h show ?thesis by simp
  next
    case (Some prev)
    have "\<not> skipped fs a (Stat prev)"
      using detect_settled(2) [of "the_stats s" a prev fs "logs s"] Some assms(4) by auto
    with ea(2,6) have "fsize prev \<noteq> st_size stat_a \<or> mtime prev \<noteq> st_mtime stat_a"
      by (simp add: skipped_def)
    with Some h ea(3,4) show ?thesis by auto
  qed
  have later: "a \<notin> set (changedLogs (detect fs' ls (heap s' (stats s))))
             \<and> d_stats (detect fs' ls (heap s' (stats s))) a = heap s' (stats s) a"
    if q: "statSync (fs' a) = statSync (fs a)" for fs' ls
  proof -
    have "skipped fs' a (Stat st_a)" using q ea(2-4) by (simp add: skipped_def)
    from detect_settled [of "heap s' (stats s)" a st_a fs' ls] h this show ?thesis by simp
  qed
  from c(1,2) fa(1) fb w ea(2) h sta ea(1) differs before later show ?thesis
    by (intro exI [of _ s'] exI [of _ "files sc"] exI [of _ stat_a] exI [of _ off_a]) auto
qed

theorem open_failure_in_cycle_witness:
  "0 \<in> fst ` set (pending ex_scanner) \<and> scans ex_scanner = [] \<and> stats ex_scanner < next_ref ex_scanner
   \<and> changedLogs (detect ex_fs_open_fails (logs ex_scanner) (the_stats ex_scanner))
       = [''a.log'', ''b.log'']
   \<and> open_err (ex_fs_open_fails ''a.log'') = Some ''EACCES''
   \<and> d_stats (detect ex_fs_open_fails (logs ex_scanner) (the_stats ex_scanner)) ''b.log''
       = Some \<lparr>fsize = 1, mtime = 2, offset = Some 0\<rparr>
   \<and> open_err (ex_fs_open_fails ''b.log'') = None
   \<and> (\<forall>pos. read_err (ex_fs_open_fails ''b.log'') pos = None)
   \<and> contents (ex_fs_open_fails ''b.log'') = ''z''
   \<and> (\<exists>s' batch. cycle env0 ex_fs_open_fails (Some quiet) 0 ex_scanner = Some s'
         \<and> cb_calls s' = cb_calls ex_scanner @ [batch]
         \<and> batch ''a.log'' = None
         \<and> batch ''b.log'' = Some ''z''
         \<and> heap s' (stats ex_scanner) ''a.log'' = Some \<lparr>fsize = 2, mtime = 2, offset = Some 0\<rparr>
         \<and> ''a.log'' \<notin> set (changedLogs (detect ex_fs_open_fails [''a.log''] (heap s' (stats ex_scanner)))))"
proof -
  let ?d = "detect ex_fs_open_fails (logs ex_scanner) (the_stats ex_scanner)"
  let ?st = "\<lparr>fsize = 1, mtime = 2, offset = Some 0\<rparr>"
  have h: "0 \<in> fst ` set (pending ex_scanner)" "scans ex_scanner = []"
    "stats ex_scanner < next_ref ex_scanner"
    by (simp_all add: ex_defs)
  have ch: "changedLogs ?d = [''a.log'', ''b.log'']" by (simp add: ex_defs)
  have a: "''a.log'' \<in> set (changedLogs ?d)" and b: "''b.log'' \<in> set (changedLogs ?d)"
    by (simp_all add: ch)
  have oa: "open_err (ex_fs_open_fails ''a.log'') = Some ''EACCES''"
    and sb: "d_stats ?d ''b.log'' = Some ?st"
    and ob: "open_err (ex_fs_open_fails ''b.log'') = None"
    and rb: "\<forall>pos. read_err (ex_fs_open_fails ''b.log'') pos = None"
    and cb: "contents (ex_fs_open_fails ''b.log'') = ''z''"
    and sa: "statSync (ex_fs_open_fails ''a.log'') = Inr \<lparr>isFile = True, st_size = 2, st_mtime = 2\<rparr>"
    by (simp_all add: ex_defs)
  have off: "offset ?st = Some 0" and np: "''b.log'' \<noteq> ''__proto__''"
    and len: "fsize ?st \<le> length (contents (ex_fs_open_fails ''b.log''))"
    by (simp_all add: cb)
  have chz: "chunks_of MAX_FILE_READ_SIZE ''z'' = [''z'']"
    by (simp add: chunks_of.simps MAX_FILE_READ_SIZE_def)
  from open_failure_in_cycle [OF h a oa b sb off ob np rb len, of env0 quiet]
  obtain s' batch stat_a off_a
    where r: "cycle env0 ex_fs_open_fails (Some quiet) 0 ex_scanner = Some s'"
      "cb_calls s' = cb_calls ex_scanner @ [batch]" "batch ''a.log'' = None"
      "batch ''b.log'' = Some (concat (map (toString env0)
              (chunks_of MAX_FILE_READ_SIZE
                 (take (fsize ?st - 0) (drop 0 (contents (ex_fs_open_fails ''b.log'')))))))"
      "statSync (ex_fs_open_fails ''a.log'') = Inr stat_a"
      "heap s' (stats ex_scanner) ''a.log''
         = Some \<lparr>fsize = st_size stat_a, mtime = st_mtime stat_a, offset = Some off_a\<rparr>"
      "heap s' (stats ex_scanner) ''a.log'' = d_stats ?d ''a.log''"
      and later: "\<forall>fs' ls. statSync (fs' ''a.log'') = statSync (ex_fs_open_fails ''a.log'')
               \<longrightarrow> ''a.log'' \<notin> set (changedLogs (detect fs' ls (heap s' (stats ex_scanner))))
                 \<and> d_stats (detect fs' ls (heap s' (stats ex_scanner))) ''a.log''
                     = heap s' (stats ex_scanner) ''a.log''"
    by blast
  have da: "d_stats ?d ''a.log'' = Some \<lparr>fsize = 2, mtime = 2, offset = Some 0\<rparr>"
    by (simp add: ex_defs)
  from r(4) have bz: "batch ''b.log'' = Some ''z''" by (simp add: cb chz env0_def)
  from r(7) da have ha: "heap s' (stats ex_scanner) ''a.log'' = Some \<lparr>fsize = 2, mtime = 2, offset = Some 0\<rparr>"
    by simp
  from later [rule_format, of ex_fs_open_fails "[''a.log'']"]
  have nr: "''a.log'' \<notin> set (changedLogs (detect ex_fs_open_fails [''a.log''] (heap s' (stats ex_scanner))))"
    by simp
  from r(1,2,3) bz ha nr
  have "\<exists>s' batch. cycle env0 ex_fs_open_fails (Some quiet) 0 ex_scanner = Some s'
         \<and> cb_calls s' = cb_calls ex_scanner @ [batch]
         \<and> batch ''a.log'' = None
         \<and> batch ''b.log'' = Some ''z''
         \<and> heap s' (stats ex_scanner) ''a.log'' = Some \<lparr>fsize = 2, mtime = 2, offset = Some 0\<rparr>
         \<and> ''a.log'' \<notin> set (changedLogs (detect ex_fs_open_fails [''a.log''] (heap s' (stats ex_scanner))))"
    by blast
  with h ch oa sb ob rb cb show ?thesis by simp
qed

text \<open>
  Claim C1 as stated fails. After a first cycle has read the one byte of \<^verbatim>\<open>a.log\<close>, the
  file grows to two bytes and cannot be opened, while \<^verbatim>\<open>b.log\<close> grows to one byte. The
  batch of the second cycle holds the byte of \<^verbatim>\<open>b.log\<close>. The entry of \<^verbatim>\<open>a.log\<close> is not what
  it was before the cycle: size and time are the new ones. A further cycle on the same
  files finds no changed path: it does not try \<^verbatim>\<open>a.log\<close> again.
\<close>

theorem open_failure_not_retried:
  "map_option (stored ''a.log'') (cycle env0 ex_fs_first (Some quiet) 0 ex_scanner)
     = Some (Some \<lparr>fsize = 1, mtime = 1, offset = Some 1\<rparr>)
   \<and> map_option (changed_in ex_fs_open_fails) (cycle env0 ex_fs_first (Some quiet) 0 ex_scanner)
     = Some [''a.log'', ''b.log'']
   \<and> map_option (stored ''a.log'')
       (Option.bind (cycle env0 ex_fs_first (Some quiet) 0 ex_scanner)
          (cycle env0 ex_fs_open_fails (Some quiet) 1))
     = Some (Some \<lparr>fsize = 2, mtime = 2, offset = Some 1\<rparr>)
   \<and> map_option (delivered ''b.log'')
       (Option.bind (cycle env0 ex_fs_first (Some quiet) 0 ex_scanner)
          (cycle env0 ex_fs_open_fails (Some quiet) 1))
     = Some [None, Some ''z'']
   \<and> map_option (changed_in ex_fs_open_fails)
       (Option.bind (cycle env0 ex_fs_first (Some quiet) 0 ex_scanner)
          (cycle env0 ex_fs_open_fails (Some quiet) 1))
     = Some []"
  by (simp add: ex_defs readAll.simps MAX_FILE_READ_SIZE_def)

subsection \<open>A delta of more than one chunk\<close>

text \<open>
  Claim C3, amended. A watched path other than \<^verbatim>\<open>__proto__\<close> is marked as changed by the
  detection, which has stored for it the size of the file and the offset \<open>off\<close>; the bytes
  from that offset to the size are more than \<^verbatim>\<open>MAX_FILE_READ_SIZE\<close>; the file opens, and
  every read succeeds and returns the bytes asked for. Then the batch of the cycle holds for
  the path the text of the chunks of that delta, one after the other; the chunks together
  are the whole delta, each is at most \<^verbatim>\<open>MAX_FILE_READ_SIZE\<close> long and there are at least
  two; and the stored offset is the size of the file afterwards. A path whose stored size
  and time are those of its stat is not marked and not read in that cycle, whatever its
  offset: the batch has no entry for it and its stored entry is left as it was. The example
  after the theorem is such a path with a delta of more than one chunk.
\<close>

theorem chunked_read_in_cycle:
  assumes "t \<in> fst ` set (pending s)" and "scans s = []" and "stats s < next_ref s"
    and "l \<in> set (changedLogs (detect fs (logs s) (the_stats s)))"
    and "d_stats (detect fs (logs s) (the_stats s)) l = Some st" and "offset st = Some off"
    and "MAX_FILE_READ_SIZE < fsize st - off"
    and "open_err (fs l) = None" and "l \<noteq> ''__proto__''"
    and "\<forall>pos. read_err (fs l) pos = None" and "fsize st \<le> length (contents (fs l))"
    and "delta = take (fsize st - off) (drop off (contents (fs l)))"
  shows "\<exists>s' batch stat. cycle env fs (Some f) t s = Some s'
           \<and> cb_calls s' = cb_calls s @ [batch]
           \<and> batch l = Some (concat (map (toString env) (chunks_of MAX_FILE_READ_SIZE delta)))
           \<and> concat (chunks_of MAX_FILE_READ_SIZE delta) = delta
           \<and> length delta = fsize st - off
           \<and> (\<forall>c \<in> set (chunks_of MAX_FILE_READ_SIZE delta). length c \<le> MAX_FILE_READ_SIZE)
           \<and> 2 \<le> length (chunks_of MAX_FILE_READ_SIZE delta)
           \<and> l \<in> set (logs s) \<and> statSync (fs l) = Inr stat \<and> isFile stat
           \<and> fsize st = st_size stat
           \<and> heap s' (stats s) l
               = Some \<lparr>fsize = st_size stat, mtime = st_mtime stat, offset = Some (st_size stat)\<rparr>
           \<and> (\<forall>p prev stat_p.
                 the_stats s p = Some prev \<and> statSync (fs p) = Inr stat_p
                 \<and> fsize prev = st_size stat_p \<and> mtime prev = st_mtime stat_p
                 \<longrightarrow> p \<notin> set (changedLogs (detect fs (logs s) (the_stats s)))
                   \<and> batch p = None \<and> heap s' (stats s) p = Some prev)"
proof -
  let ?d = "detect fs (logs s) (the_stats s)"
  from assms(4) have ne: "changedLogs ?d \<noteq> []" by auto
  from cycle_changed_state [OF assms(1-3) ne, of env "Some f"] obtain sc s'
    where sc: "scanLogs env fs (changedLogs ?d) (d_stats ?d) = Some sc"
      and c: "cycle env fs (Some f) t s = Some s'" "cb_calls s' = cb_calls s @ [files sc]"
             "heap s' (stats s) = s_stats sc"
    by auto
  from changed_entry [OF assms(4)] assms(5) obtain stat
    where e: "statSync (fs l) = Inr stat" "isFile stat" "fsize st = st_size stat"
      "mtime st = st_mtime stat"
    by auto
  from assms(7) have le: "off \<le> fsize st" by simp
  from scanned_read_all [OF sc detect_distinct assms(4,5,6) le assms(8,10,11,9)]
  have fl: "files sc l = Some (concat (map (toString env)
                (chunks_of MAX_FILE_READ_SIZE (take (fsize st - off) (drop off (contents (fs l)))))))"
    and sl: "s_stats sc l = Some (st\<lparr>offset := Some (fsize st)\<rparr>)"
    by simp_all
  from e(3,4) have "st\<lparr>offset := Some (fsize st)\<rparr>
      = \<lparr>fsize = st_size stat, mtime = st_mtime stat, offset = Some (st_size stat)\<rparr>"
    by (cases st) simp
  with sl c(3) have h: "heap s' (stats s) l
      = Some \<lparr>fsize = st_size stat, mtime = st_mtime stat, offset = Some (st_size stat)\<rparr>"
    by simp
  from detect_changed_watched [of fs "logs s" "the_stats s"] assms(4)
  have w: "l \<in> set (logs s)" by auto
  have M: "0 < MAX_FILE_READ_SIZE" by (simp add: MAX_FILE_READ_SIZE_def)
  have len: "length delta = fsize st - off"
    using assms(11) le by (simp add: assms(12))
  have many: "2 \<le> length (chunks_of MAX_FILE_READ_SIZE delta)"
    using M assms(7) len by (intro chunks_of_many) simp_all
  have bound: "\<forall>c \<in> set (chunks_of MAX_FILE_READ_SIZE delta). length c \<le> MAX_FILE_READ_SIZE"
    using chunks_of_bound by blast
  from fl have fl': "files sc l
      = Some (concat (map (toString env) (chunks_of MAX_FILE_READ_SIZE delta)))"
    by (simp add: assms(12))
  have unmarked: "p \<notin> set (changedLogs ?d) \<and> files sc p = None \<and> heap s' (stats s) p = Some prev"
    if q: "the_stats s p = Some prev" "statSync (fs p) = Inr stat_p"
      "fsize prev = st_size stat_p" "mtime prev = st_mtime stat_p" for p prev stat_p
  proof -
    have sk: "skipped fs p (Stat prev)" using q(2-4) by (simp add: skipped_def)
    from detect_settled [of "the_stats s" p prev fs "logs s"] q(1) sk
    have 1: "d_stats ?d p = Some prev" and 2: "p \<notin> set (changedLogs ?d)" by simp_all
    from scanned_frame [OF sc 2] 1 2 c(3) show ?thesis by simp
  qed
  have cc: "concat (chunks_of MAX_FILE_READ_SIZE delta) = delta"
    using M by (rule concat_chunks_of)
  from c(1,2) fl' cc len many bound w e(1-3) h unmarked show ?thesis
    by (intro exI [of _ s'] exI [of _ "files sc"] exI [of _ stat]) blast
qed

theorem chunked_read_in_cycle_witness:
  "0 \<in> fst ` set (pending ex_watching) \<and> scans ex_watching = []
   \<and> stats ex_watching < next_ref ex_watching
   \<and> changedLogs (detect ex_fs_big (logs ex_watching) (the_stats ex_watching)) = [''a.log'']
   \<and> d_stats (detect ex_fs_big (logs ex_watching) (the_stats ex_watching)) ''a.log''
       = Some \<lparr>fsize = 300000, mtime = 1, offset = Some 0\<rparr>
   \<and> MAX_FILE_READ_SIZE < 300000 - 0
   \<and> open_err (ex_fs_big ''a.log'') = None
   \<and> (\<forall>pos. read_err (ex_fs_big ''a.log'') pos = None)
   \<and> contents (ex_fs_big ''a.log'') = replicate 300000 (CHR ''a'')
   \<and> (\<exists>s' batch. cycle env0 ex_fs_big (Some quiet) 0 ex_watching = Some s'
         \<and> cb_calls s' = cb_calls ex_watching @ [batch]
         \<and> batch ''a.log''
             = Some (concat (map (toString env0)
                  (chunks_of MAX_FILE_READ_SIZE (replicate 300000 (CHR ''a'')))))
         \<and> concat (chunks_of MAX_FILE_READ_SIZE (replicate 300000 (CHR ''a'')))
             = replicate 300000 (CHR ''a'')
         \<and> 2 \<le> length (chunks_of MAX_FILE_READ_SIZE (replicate 300000 (CHR ''a'')))
         \<and> heap s' (stats ex_watching) ''a.log''
             = Some \<lparr>fsize = 300000, mtime = 1, offset = Some 300000\<rparr>)"
proof -
  let ?d = "detect ex_fs_big (logs ex_watching) (the_stats ex_watching)"
  let ?st = "\<lparr>fsize = 300000, mtime = 1, offset = Some 0\<rparr>"
  have ch: "changedLogs ?d = [''a.log'']"
    and ds: "d_stats ?d ''a.log'' = Some ?st"
    and o: "open_err (ex_fs_big ''a.log'') = None"
    and r: "\<forall>pos. read_err (ex_fs_big ''a.log'') pos = None"
    and cn: "contents (ex_fs_big ''a.log'') = replicate 300000 (CHR ''a'')"
    and sy: "statSync (ex_fs_big ''a.log'') = Inr \<lparr>isFile = True, st_size = 300000, st_mtime = 1\<rparr>"
    by (simp_all add: ex_defs)
  have a: "''a.log'' \<in> set (changedLogs ?d)" by (simp add: ch)
  have off: "offset ?st = Some 0" and np: "''a.log'' \<noteq> ''__proto__''"
    and len: "fsize ?st \<le> length (contents (ex_fs_big ''a.log''))"
    and d: "replicate 300000 (CHR ''a'') = take (fsize ?st - 0) (drop 0 (contents (ex_fs_big ''a.log'')))"
    by (simp_all add: cn)
  have big: "MAX_FILE_READ_SIZE < fsize ?st - 0"
    by (simp add: MAX_FILE_READ_SIZE_def)
  from chunked_read_in_cycle [OF ex_watching_ready a ds off big o np r len d, of env0 quiet] sy
  have "\<exists>s' batch. cycle env0 ex_fs_big (Some quiet) 0 ex_watching = Some s'
         \<and> cb_calls s' = cb_calls ex_watching @ [batch]
         \<and> batch ''a.log''
             = Some (concat (map (toString env0)
                  (chunks_of MAX_FILE_READ_SIZE (replicate 300000 (CHR ''a'')))))
         \<and> concat (chunks_of MAX_FILE_READ_SIZE (replicate 300000 (CHR ''a'')))
             = replicate 300000 (CHR ''a'')
         \<and> 2 \<le> length (chunks_of MAX_FILE_READ_SIZE (replicate 300000 (CHR ''a'')))
         \<and> heap s' (stats ex_watching) ''a.log''
             = Some \<lparr>fsize = 300000, mtime = 1, offset = Some 300000\<rparr>"
    by auto
  with ex_watching_ready ch ds big o r cn show ?thesis by simp
qed

text \<open>
  Claim C3 as stated fails. \<^verbatim>\<open>a.log\<close>, new to the scanner, has 300000 bytes and cannot be
  opened: the cycle stores its size and time with the offset 0 and reads nothing. The
  unread delta is then 300000 bytes, more than \<^verbatim>\<open>MAX_FILE_READ_SIZE\<close>. In the next cycle
  the file opens and every read would succeed, but size and time are the stored ones: the
  detection does not mark the path, nothing is read, the callback is not called again and
  the stored offset stays 0.
\<close>

theorem unread_delta_not_read:
  "map_option (stored ''a.log'') (cycle env0 ex_fs_big_closed (Some quiet) 0 ex_watching)
     = Some (Some \<lparr>fsize = 300000, mtime = 1, offset = Some 0\<rparr>)
   \<and> MAX_FILE_READ_SIZE < 300000 - 0
   \<and> statSync (ex_fs_big ''a.log'') = Inr \<lparr>isFile = True, st_size = 300000, st_mtime = 1\<rparr>
   \<and> open_err (ex_fs_big ''a.log'') = None
   \<and> length (contents (ex_fs_big ''a.log'')) = 300000
   \<and> map_option (changed_in ex_fs_big) (cycle env0 ex_fs_big_closed (Some quiet) 0 ex_watching)
     = Some []
   \<and> map_option (stored ''a.log'')
       (Option.bind (cycle env0 ex_fs_big_closed (Some quiet) 0 ex_watching)
          (cycle env0 ex_fs_big (Some quiet) 1))
     = Some (Some \<lparr>fsize = 300000, mtime = 1, offset = Some 0\<rparr>)
   \<and> map_option (delivered ''a.log'')
       (Option.bind (cycle env0 ex_fs_big_closed (Some quiet) 0 ex_watching)
          (cycle env0 ex_fs_big (Some quiet) 1))
     = Some [None]"
  by (simp add: ex_defs MAX_FILE_READ_SIZE_def)

subsection \<open>A read that fails after some chunks\<close>

text \<open>
  Claim C9, amended. A path is marked as changed by the detection, which has stored for it
  the offset \<open>off\<close>, and it opens. The reads return the chunks of \<open>ns\<close> bytes, each at least
  one byte, one after the other from that offset; bytes are left to read, and the next
  read fails. Then the batch of the cycle has no entry for the path, and the stored offset
  is \<open>off\<close> advanced by the bytes of these chunks. In every later detection for which the
  file is not shorter than that offset (or cannot be stat'ed) the offset stays where it is,
  so the bytes before it are not read again. When a later detection finds the file, still
  watched, shorter than that offset, it stores the offset 0 and marks the path unless the
  file is empty: the file is read again from its start, as in the example after the
  theorem.
\<close>

theorem read_failure_in_cycle:
  assumes "t \<in> fst ` set (pending s)" and "scans s = []" and "stats s < next_ref s"
    and "l \<in> set (changedLogs (detect fs (logs s) (the_stats s)))"
    and "d_stats (detect fs (logs s) (the_stats s)) l = Some st" and "offset st = Some off"
    and "open_err (fs l) = None"
    and "\<forall>i<length ns. 0 < ns ! i \<and>
           (\<exists>buffer. fs_read env (fs l)
                        (min (fsize st - (off + sum_list (take i ns))) MAX_FILE_READ_SIZE)
                        (off + sum_list (take i ns)) = Inr (ns ! i, buffer))"
    and "read_err (fs l) (off + sum_list ns) = Some e"
    and "off + sum_list ns < fsize st"
  shows "\<exists>s' batch. cycle env fs (Some f) t s = Some s'
           \<and> cb_calls s' = cb_calls s @ [batch]
           \<and> batch l = None
           \<and> heap s' (stats s) l = Some (st\<lparr>offset := Some (off + sum_list ns)\<rparr>)
           \<and> (\<forall>fs' ls.
                 (case statSync (fs' l) of
                    Inl err \<Rightarrow> True
                  | Inr stat' \<Rightarrow> off + sum_list ns \<le> st_size stat')
                 \<longrightarrow> map_option offset (d_stats (detect fs' ls (heap s' (stats s))) l)
                       = Some (Some (off + sum_list ns)))
           \<and> (\<forall>fs' ls stat'.
                 l \<in> set ls \<and> statSync (fs' l) = Inr stat' \<and> isFile stat'
                 \<and> st_size stat' < off + sum_list ns
                 \<longrightarrow> d_stats (detect fs' ls (heap s' (stats s))) l
                       = Some \<lparr>fsize = st_size stat', mtime = st_mtime stat', offset = Some 0\<rparr>
                   \<and> (l \<in> set (changedLogs (detect fs' ls (heap s' (stats s))))
                        \<longleftrightarrow> 0 < st_size stat'))"
proof -
  let ?d = "detect fs (logs s) (the_stats s)"
  from assms(4) have ne: "changedLogs ?d \<noteq> []" by auto
  from cycle_changed_state [OF assms(1-3) ne, of env "Some f"] obtain sc s'
    where sc: "scanLogs env fs (changedLogs ?d) (d_stats ?d) = Some sc"
      and c: "cycle env fs (Some f) t s = Some s'" "cb_calls s' = cb_calls s @ [files sc]"
             "heap s' (stats s) = s_stats sc"
    by auto
  let ?st = "st\<lparr>offset := Some (off + sum_list ns)\<rparr>"
  from scanned_read_failed [OF sc detect_distinct assms(4-10)]
  have fl: "files sc l = None" "s_stats sc l = Some ?st" by simp_all
  have h: "heap s' (stats s) l = Some ?st" using c(3) fl(2) by simp
  have later: "map_option offset (d_stats (detect fs' ls (heap s' (stats s))) l)
                 = Some (Some (off + sum_list ns))"
    if "case statSync (fs' l) of Inl err \<Rightarrow> True
        | Inr stat' \<Rightarrow> off + sum_list ns \<le> st_size stat'" for fs' ls
    using detect_keeps_offset [of "heap s' (stats s)" l ?st "off + sum_list ns" fs' ls] h that
    by simp
  have cut: "d_stats (detect fs' ls (heap s' (stats s))) l
                 = Some \<lparr>fsize = st_size stat', mtime = st_mtime stat', offset = Some 0\<rparr>
             \<and> (l \<in> set (changedLogs (detect fs' ls (heap s' (stats s)))) \<longleftrightarrow> 0 < st_size stat')"
    if q: "l \<in> set ls" "statSync (fs' l) = Inr stat'" "isFile stat'"
      "st_size stat' < off + sum_list ns" for fs' ls stat'
  proof -
    from q(4) assms(10) have "fsize ?st \<noteq> st_size stat'" by simp
    with q(2,3) have ns: "\<not> skipped fs' l (Stat ?st)" by (simp add: skipped_def)
    from q(4) have k: "kept_offset stat' (Stat ?st) = Some 0" by (simp add: kept_offset_def)
    from detect_own [of "heap s' (stats s)" l ?st fs' stat' ls] h ns q(2,1) k
    have 1: "d_stats (detect fs' ls (heap s' (stats s))) l
               = Some \<lparr>fsize = st_size stat', mtime = st_mtime stat', offset = Some 0\<rparr>"
      and 2: "l \<in> set (changedLogs (detect fs' ls (heap s' (stats s))))
                \<longleftrightarrow> growing fs' (Stat ?st) l"
      by simp_all
    have "growing fs' (Stat ?st) l \<longleftrightarrow> 0 < st_size stat'"
      using ns q(2) k by (simp add: growing_def)
    with 1 2 show ?thesis by simp
  qed
  from c(1,2) fl(1) h later cut show ?thesis
    by (intro exI [of _ s'] exI [of _ "files sc"]) blast
qed

theorem read_failure_in_cycle_witness:
  "0 \<in> fst ` set (pending ex_watching) \<and> scans ex_watching = []
   \<and> stats ex_watching < next_ref ex_watching
   \<and> changedLogs (detect ex_fs_read_fails (logs ex_watching) (the_stats ex_watching)) = [''a.log'']
   \<and> d_stats (detect ex_fs_read_fails (logs ex_watching) (the_stats ex_watching)) ''a.log''
       = Some \<lparr>fsize = 300000, mtime = 1, offset = Some 0\<rparr>
   \<and> open_err (ex_fs_read_fails ''a.log'') = None
   \<and> fs_read env0 (ex_fs_read_fails ''a.log'') (min (300000 - 0) MAX_FILE_READ_SIZE) 0
       = Inr (262144, replicate 262144 (CHR ''a''))
   \<and> read_err (ex_fs_read_fails ''a.log'') (0 + 262144) = Some ''EIO''
   \<and> (0::nat) + 262144 < 300000
   \<and> (\<exists>s' batch. cycle env0 ex_fs_read_fails (Some quiet) 0 ex_watching = Some s'
         \<and> cb_calls s' = cb_calls ex_watching @ [batch]
         \<and> batch ''a.log'' = None
         \<and> heap s' (stats ex_watching) ''a.log''
             = Some \<lparr>fsize = 300000, mtime = 1, offset = Some 262144\<rparr>)"
proof -
  let ?d = "detect ex_fs_read_fails (logs ex_watching) (the_stats ex_watching)"
  let ?st = "\<lparr>fsize = 300000, mtime = 1, offset = Some 0\<rparr>"
  have ch: "changedLogs ?d = [''a.log'']"
    and ds: "d_stats ?d ''a.log'' = Some ?st"
    and o: "open_err (ex_fs_read_fails ''a.log'') = None"
    and r2: "read_err (ex_fs_read_fails ''a.log'') (0 + 262144) = Some ''EIO''"
    by (simp_all add: ex_defs)
  have r1: "fs_read env0 (ex_fs_read_fails ''a.log'') (min (300000 - 0) MAX_FILE_READ_SIZE) 0
              = Inr (262144, replicate 262144 (CHR ''a''))"
    by (simp add: ex_defs MAX_FILE_READ_SIZE_def)
  have a: "''a.log'' \<in> set (changedLogs ?d)" by (simp add: ch)
  have off: "offset ?st = Some 0" by simp
  have reads: "\<forall>i<length [262144::nat]. 0 < [262144::nat] ! i \<and>
           (\<exists>buffer. fs_read env0 (ex_fs_read_fails ''a.log'')
                        (min (fsize ?st - (0 + sum_list (take i [262144]))) MAX_FILE_READ_SIZE)
                        (0 + sum_list (take i [262144])) = Inr ([262144] ! i, buffer))"
    using r1 by simp
  have fails: "read_err (ex_fs_read_fails ''a.log'') (0 + sum_list [262144]) = Some ''EIO''"
    using r2 by simp
  have left: "0 + sum_list [262144] < fsize ?st" by simp
  from read_failure_in_cycle [OF ex_watching_ready a ds off o reads fails left, of quiet]
  have "\<exists>s' batch. cycle env0 ex_fs_read_fails (Some quiet) 0 ex_watching = Some s'
         \<and> cb_calls s' = cb_calls ex_watching @ [batch]
         \<and> batch ''a.log'' = None
         \<and> heap s' (stats ex_watching) ''a.log''
             = Some \<lparr>fsize = 300000, mtime = 1, offset = Some 262144\<rparr>"
    by simp blast
  with ex_watching_ready ch ds o r1 r2 show ?thesis by simp
qed

text \<open>
  Claim C9 as stated fails in its last part. The second chunk of \<^verbatim>\<open>a.log\<close> fails to read:
  the batch has no entry and the offset is 262144. The file is then cut down to its first
  three bytes, which were among the bytes read before the failure: the next cycle resets
  the offset and delivers them.
\<close>

theorem read_bytes_delivered_after_truncation:
  "map_option (delivered ''a.log'') (cycle env0 ex_fs_read_fails (Some quiet) 0 ex_watching)
     = Some [None]
   \<and> map_option (stored ''a.log'') (cycle env0 ex_fs_read_fails (Some quiet) 0 ex_watching)
     = Some (Some \<lparr>fsize = 300000, mtime = 1, offset = Some 262144\<rparr>)
   \<and> take 3 (contents (ex_fs_read_fails ''a.log'')) = ''aaa''
   \<and> contents (ex_fs_cut ''a.log'') = ''aaa''
   \<and> map_option (delivered ''a.log'')
       (Option.bind (cycle env0 ex_fs_read_fails (Some quiet) 0 ex_watching)
          (cycle env0 ex_fs_cut (Some quiet) 1))
     = Some [None, Some ''aaa'']"
proof -
  have "take 3 (contents (ex_fs_read_fails ''a.log'')) = ''aaa''"
    by (simp add: ex_defs numeral_3_eq_3)
  then show ?thesis
    by (simp add: ex_defs readAll.simps MAX_FILE_READ_SIZE_def)
qed

subsection \<open>Offsets and sizes\<close>

lemma timer_fires_stats:
  "t \<in> fst ` set (pending s) \<Longrightarrow>
     \<exists>s1. timer_fires fs t s = Some s1 \<and> the_stats s1 = d_stats (detect fs (logs s) (the_stats s))"
  by (simp add: timer_fires_def clearTimeout_def the_stats_def Let_def monitor_def
      split: option.splits)

lemma LogScanner_within: "offsets_within (the_stats LogScanner)"
  by (simp add: offsets_within_def the_stats_def LogScanner_def)

text \<open>
  Claim C5, amended. When a pending timeout fires, every entry that the detection writes
  has an offset that is a number within the size, or is undefined (\<open>within\<close>); so if every
  stored entry was so before, every entry is so afterwards. For a watched path with an
  entry whose offset is a number, and whose stat succeeds on a regular file smaller than
  that offset, the detection stores the new size and time with the offset 0, provided the
  stored size or time differs from the new one, which is so whenever the stored offset was
  within the stored size. When that file is not empty and opens, the cycle then reads it
  from position 0 and hands the result to the callback (the batch takes no entry for the
  path \<^verbatim>\<open>__proto__\<close>). An entry whose size and time are those of the stat is left as it is,
  whatever its offset: in the example after the theorem the offset is beyond the size
  and stays so.
\<close>

theorem truncation_reset:
  assumes "t \<in> fst ` set (pending s)"
  shows "\<exists>s1. timer_fires fs t s = Some s1
     \<and> (\<forall>l. the_stats s1 l = the_stats s l \<or> (\<exists>st. the_stats s1 l = Some st \<and> within st))
     \<and> (offsets_within (the_stats s) \<longrightarrow> offsets_within (the_stats s1))
     \<and> (\<forall>l st stat.
           the_stats s l = Some st \<and> statSync (fs l) = Inr stat
           \<and> fsize st = st_size stat \<and> mtime st = st_mtime stat
           \<longrightarrow> the_stats s1 l = Some st)
     \<and> (\<forall>l prev off stat.
           l \<in> set (logs s) \<and> the_stats s l = Some prev \<and> offset prev = Some off
           \<and> statSync (fs l) = Inr stat \<and> isFile stat \<and> st_size stat < off
           \<and> (off \<le> fsize prev \<or> fsize prev \<noteq> st_size stat \<or> mtime prev \<noteq> st_mtime stat)
           \<longrightarrow> the_stats s1 l = Some \<lparr>fsize = st_size stat, mtime = st_mtime stat, offset = Some 0\<rparr>
               \<and> (0 < st_size stat \<and> scans s = [] \<and> stats s < next_ref s \<and> open_err (fs l) = None
                  \<longrightarrow> (\<exists>s' batch r st'.
                         cycle env fs (Some f) t s = Some s'
                       \<and> cb_calls s' = cb_calls s @ [batch]
                       \<and> readAll env (fs l)
                           \<lparr>fsize = st_size stat, mtime = st_mtime stat, offset = Some 0\<rparr> []
                           = Some (r, st')
                       \<and> batch l = (case r of
                                      Inl e \<Rightarrow> None
                                    | Inr out \<Rightarrow> if l = ''__proto__'' then None else Some out)
                       \<and> heap s' (stats s) l = Some st')))"
proof -
  let ?m = "the_stats s"
  let ?d = "detect fs (logs s) ?m"
  from timer_fires_stats [OF assms] obtain s1
    where s1: "timer_fires fs t s = Some s1" "the_stats s1 = d_stats ?d" by blast
  have written: "\<forall>l. the_stats s1 l = ?m l \<or> (\<exists>st. the_stats s1 l = Some st \<and> within st)"
    using detect_written [of fs "logs s" ?m] by (simp add: s1(2))
  have inv: "offsets_within ?m \<longrightarrow> offsets_within (the_stats s1)"
    by (simp add: s1(2) detect_within)
  have same: "the_stats s1 l = Some st"
    if q: "the_stats s l = Some st" "statSync (fs l) = Inr stat"
      "fsize st = st_size stat" "mtime st = st_mtime stat" for l st stat
  proof -
    have "skipped fs l (Stat st)" using q(2-4) by (simp add: skipped_def)
    from detect_settled(1) [of ?m l st fs "logs s"] q(1) this show ?thesis by (simp add: s1(2))
  qed
  have reset: "the_stats s1 l = Some \<lparr>fsize = st_size stat, mtime = st_mtime stat, offset = Some 0\<rparr>
               \<and> (0 < st_size stat \<and> scans s = [] \<and> stats s < next_ref s \<and> open_err (fs l) = None
                  \<longrightarrow> (\<exists>s' batch r st'.
                         cycle env fs (Some f) t s = Some s'
                       \<and> cb_calls s' = cb_calls s @ [batch]
                       \<and> readAll env (fs l)
                           \<lparr>fsize = st_size stat, mtime = st_mtime stat, offset = Some 0\<rparr> []
                           = Some (r, st')
                       \<and> batch l = (case r of
                                      Inl e \<Rightarrow> None
                                    | Inr out \<Rightarrow> if l = ''__proto__'' then None else Some out)
                       \<and> heap s' (stats s) l = Some st'))"
    if h: "l \<in> set (logs s)" "the_stats s l = Some prev" "offset prev = Some off"
      "statSync (fs l) = Inr stat" "isFile stat" "st_size stat < off"
      "off \<le> fsize prev \<or> fsize prev \<noteq> st_size stat \<or> mtime prev \<noteq> st_mtime stat"
    for l prev off stat
  proof -
    let ?e = "\<lparr>fsize = st_size stat, mtime = st_mtime stat, offset = Some 0\<rparr>"
    from h(4-7) have ns: "\<not> skipped fs l (Stat prev)" by (auto simp: skipped_def)
    from h(3,6) have k: "kept_offset stat (Stat prev) = Some 0" by (simp add: kept_offset_def)
    from detect_own [of ?m l prev fs stat "logs s"] h(2) ns h(4) h(1) k
    have e: "d_stats ?d l = Some ?e"
      and ch: "l \<in> set (changedLogs ?d) \<longleftrightarrow> growing fs (Stat prev) l"
      by simp_all
    have rd: "\<exists>s' batch r st'.
                 cycle env fs (Some f) t s = Some s'
               \<and> cb_calls s' = cb_calls s @ [batch]
               \<and> readAll env (fs l) ?e [] = Some (r, st')
               \<and> batch l = (case r of
                              Inl e \<Rightarrow> None
                            | Inr out \<Rightarrow> if l = ''__proto__'' then None else Some out)
               \<and> heap s' (stats s) l = Some st'"
      if g: "0 < st_size stat" "scans s = []" "stats s < next_ref s" "open_err (fs l) = None"
    proof -
      from ns h(4) k g(1) have "growing fs (Stat prev) l" by (simp add: growing_def)
      with ch have c: "l \<in> set (changedLogs ?d)" by simp
      then have ne: "changedLogs ?d \<noteq> []" by auto
      from cycle_changed_state [OF assms g(2,3) ne, of env "Some f"] obtain sc s'
        where sc: "scanLogs env fs (changedLogs ?d) (d_stats ?d) = Some sc"
          and cy: "cycle env fs (Some f) t s = Some s'" "cb_calls s' = cb_calls s @ [files sc]"
                 "heap s' (stats s) = s_stats sc"
        by auto
      from scanned_read [OF sc detect_distinct c e g(4)] cy show ?thesis by auto
    qed
    from e rd show ?thesis by (simp add: s1(2))
  qed
  from s1(1) written inv same reset show ?thesis
    by (intro exI [of _ s1]) blast
qed

theorem truncation_reset_witness:
  "0 \<in> fst ` set (pending ex_resumed)
   \<and> ''a.log'' \<in> set (logs ex_resumed)
   \<and> the_stats ex_resumed ''a.log'' = Some \<lparr>fsize = 300000, mtime = 1, offset = Some 300000\<rparr>
   \<and> statSync (ex_fs_cut ''a.log'') = Inr \<lparr>isFile = True, st_size = 3, st_mtime = 2\<rparr>
   \<and> offsets_within (the_stats ex_resumed)
   \<and> scans ex_resumed = [] \<and> stats ex_resumed < next_ref ex_resumed
   \<and> open_err (ex_fs_cut ''a.log'') = None
   \<and> (\<exists>s1. timer_fires ex_fs_cut 0 ex_resumed = Some s1
         \<and> offsets_within (the_stats s1)
         \<and> the_stats s1 ''a.log'' = Some \<lparr>fsize = 3, mtime = 2, offset = Some 0\<rparr>)
   \<and> (\<exists>s' batch. cycle env0 ex_fs_cut (Some quiet) 0 ex_resumed = Some s'
         \<and> cb_calls s' = cb_calls ex_resumed @ [batch]
         \<and> batch ''a.log'' = Some ''aaa''
         \<and> heap s' (stats ex_resumed) ''a.log'' = Some \<lparr>fsize = 3, mtime = 2, offset = Some 3\<rparr>)"
proof -
  let ?prev = "\<lparr>fsize = 300000, mtime = 1, offset = Some 300000\<rparr>"
  let ?stat = "\<lparr>isFile = True, st_size = 3, st_mtime = 2\<rparr>"
  have h1: "0 \<in> fst ` set (pending ex_resumed)"
    and h2: "''a.log'' \<in> set (logs ex_resumed)"
    and h3: "the_stats ex_resumed ''a.log'' = Some ?prev"
    and h4: "statSync (ex_fs_cut ''a.log'') = Inr ?stat"
    and h5: "scans ex_resumed = []" "stats ex_resumed < next_ref ex_resumed"
    and h6: "open_err (ex_fs_cut ''a.log'') = None"
    by (simp_all add: ex_defs ex_brain_defs)
  have w: "offsets_within (the_stats ex_resumed)"
    by (simp add: offsets_within_def within_def ex_defs ex_brain_defs)
  have rd: "readAll env0 (ex_fs_cut ''a.log'') \<lparr>fsize = 3, mtime = 2, offset = Some 0\<rparr> []
              = Some (Inr ''aaa'', \<lparr>fsize = 3, mtime = 2, offset = Some 3\<rparr>)"
    by (simp add: readAll.simps ex_defs MAX_FILE_READ_SIZE_def)
  from truncation_reset [OF h1, of ex_fs_cut env0 quiet] obtain s1
    where s1: "timer_fires ex_fs_cut 0 ex_resumed = Some s1"
      and inv: "offsets_within (the_stats ex_resumed) \<longrightarrow> offsets_within (the_stats s1)"
      and all: "\<forall>l prev off stat.
           l \<in> set (logs ex_resumed) \<and> the_stats ex_resumed l = Some prev \<and> offset prev = Some off
           \<and> statSync (ex_fs_cut l) = Inr stat \<and> isFile stat \<and> st_size stat < off
           \<and> (off \<le> fsize prev \<or> fsize prev \<noteq> st_size stat \<or> mtime prev \<noteq> st_mtime stat)
           \<longrightarrow> the_stats s1 l = Some \<lparr>fsize = st_size stat, mtime = st_mtime stat, offset = Some 0\<rparr>
               \<and> (0 < st_size stat \<and> scans ex_resumed = [] \<and> stats ex_resumed < next_ref ex_resumed
                    \<and> open_err (ex_fs_cut l) = None
                  \<longrightarrow> (\<exists>s' batch r st'.
                         cycle env0 ex_fs_cut (Some quiet) 0 ex_resumed = Some s'
                       \<and> cb_calls s' = cb_calls ex_resumed @ [batch]
                       \<and> readAll env0 (ex_fs_cut l)
                           \<lparr>fsize = st_size stat, mtime = st_mtime stat, offset = Some 0\<rparr> []
                           = Some (r, st')
                       \<and> batch l = (case r of
                                      Inl e \<Rightarrow> None
                                    | Inr out \<Rightarrow> if l = ''__proto__'' then None else Some out)
                       \<and> heap s' (stats ex_resumed) l = Some st'))"
    by blast
  from all [rule_format, of "''a.log''" ?prev 300000 ?stat] h2 h3 h4
  have a: "the_stats s1 ''a.log'' = Some \<lparr>fsize = 3, mtime = 2, offset = Some 0\<rparr>"
    and b: "\<exists>s' batch r st'.
                         cycle env0 ex_fs_cut (Some quiet) 0 ex_resumed = Some s'
                       \<and> cb_calls s' = cb_calls ex_resumed @ [batch]
                       \<and> readAll env0 (ex_fs_cut ''a.log'') \<lparr>fsize = 3, mtime = 2, offset = Some 0\<rparr> []
                           = Some (r, st')
                       \<and> batch ''a.log''
                           = (case r of
                                Inl e \<Rightarrow> None
                              | Inr out \<Rightarrow> if ''a.log'' = ''__proto__'' then None else Some out)
                       \<and> heap s' (stats ex_resumed) ''a.log'' = Some st'"
    using h5 h6 by simp_all
  from b rd have c: "\<exists>s' batch. cycle env0 ex_fs_cut (Some quiet) 0 ex_resumed = Some s'
         \<and> cb_calls s' = cb_calls ex_resumed @ [batch]
         \<and> batch ''a.log'' = Some ''aaa''
         \<and> heap s' (stats ex_resumed) ''a.log'' = Some \<lparr>fsize = 3, mtime = 2, offset = Some 3\<rparr>"
    by auto
  from inv w have "offsets_within (the_stats s1)" by simp
  with s1 a c h1 h2 h3 h4 h5 h6 w show ?thesis by blast
qed

text \<open>
  Claim C5 as stated fails. A scanner is bound to a brain that holds for \<^verbatim>\<open>a.log\<close> the
  size 10, the time 5 and the offset 20. The file has the size 10 and the time 5: the
  detection takes it as unchanged and returns before it compares offset and size. After
  the detection the stored offset is still 20, beyond the size, and the path is not read.
\<close>

theorem stale_offset_kept:
  "stored ''a.log'' ex_loaded = Some \<lparr>fsize = 10, mtime = 5, offset = Some 20\<rparr>
   \<and> statSync (ex_fs_same ''a.log'') = Inr \<lparr>isFile = True, st_size = 10, st_mtime = 5\<rparr>
   \<and> map_option (stored ''a.log'') (timer_fires ex_fs_same 0 ex_loaded)
       = Some (Some \<lparr>fsize = 10, mtime = 5, offset = Some 20\<rparr>)
   \<and> map_option (changed_in ex_fs_same) (timer_fires ex_fs_same 0 ex_loaded) = Some []"
  by (simp add: ex_defs ex_brain_defs)

subsection \<open>\<^verbatim>\<open>removeLog\<close>\<close>

lemma removeLog_bound: "brain s = Some key \<Longrightarrow> removeLog log s = s"
  by (simp add: removeLog_def)

lemma removeLog_unbound: "brain s = None \<Longrightarrow> log \<notin> set (logs (removeLog log s))"
  by (simp add: removeLog_def)

text \<open>
  Claim C2. With a brain bound, \<^verbatim>\<open>removeLog\<close> of a watched path is meant to write the
  reduced list through the brain under \<^verbatim>\<open>key + "/logs"\<close>. The code compares the length
  of \<^verbatim>\<open>_logs\<close> with itself, so it never does: on a scanner bound to the key
  \<^verbatim>\<open>scanner\<close> that watches \<^verbatim>\<open>a.log\<close>, \<^verbatim>\<open>removeLog("a.log")\<close> calls \<^verbatim>\<open>_brain.set\<close> not once
  and the path stays watched, where \<^verbatim>\<open>removeAllLogs\<close> writes through.
\<close>

theorem removeLog_bound_writes_nothing:
  "brain (setBrain ''scanner'' None (Some [''a.log'']) LogScanner) = Some ''scanner''
   \<and> logs (setBrain ''scanner'' None (Some [''a.log'']) LogScanner) = [''a.log'']
   \<and> brain_sets (removeLog ''a.log'' (setBrain ''scanner'' None (Some [''a.log'']) LogScanner)) = []
   \<and> logs (removeLog ''a.log'' (setBrain ''scanner'' None (Some [''a.log'']) LogScanner)) = [''a.log'']
   \<and> brain_sets (removeAllLogs (setBrain ''scanner'' None (Some [''a.log'']) LogScanner))
       = [(''scanner/logs'', BLogs [])]"
  by (simp add: removeLog_def removeAllLogs_def setBrain_def brainLogsChanged_def
      brainStatsChanged_def LogScanner_def)

section \<open>Properties of the connection manager\<close>

lemma tryLogin_existing:
  "socket a = Some k \<Longrightarrow> tryLogin strDigest ts srv a = ([], Inr (Existing k))"
  by (simp add: tryLogin_def)

lemma tryLogin_challenge_failed:
  assumes "socket a = None" and "request_failed (srv (challenge_request strDigest ts a))"
  shows "isl (snd (tryLogin strDigest ts srv a))"
    and "map fst (fst (tryLogin strDigest ts srv a)) = [challenge_request strDigest ts a]"
    and "\<forall>p \<in> set (fst (tryLogin strDigest ts srv a)). snd p = srv (fst p)"
  using assms
  by (auto simp: tryLogin_def request_failed_def makeUrl_def challenge_request_def Let_def
      split: sum.splits prod.splits)

lemma tryLogin_login_failed:
  assumes "socket a = None" and "srv (challenge_request strDigest ts a) = Inr (200, challenge)"
    and "request_failed (srv (login_request strDigest challenge a))"
  shows "isl (snd (tryLogin strDigest ts srv a))"
    and "map fst (fst (tryLogin strDigest ts srv a))
           = [challenge_request strDigest ts a, login_request strDigest challenge a]"
    and "\<forall>p \<in> set (fst (tryLogin strDigest ts srv a)). snd p = srv (fst p)"
  using assms
  by (auto simp: tryLogin_def request_failed_def makeUrl_def challenge_request_def
      login_request_def Let_def split: sum.splits prod.splits)

lemma tryLogin_succeeds:
  assumes "socket a = None" and "srv (challenge_request strDigest ts a) = Inr (200, challenge)"
    and "srv (login_request strDigest challenge a) = Inr (200, token)"
  shows "tryLogin strDigest ts srv a =
           ([(challenge_request strDigest ts a, Inr (200, challenge)),
             (login_request strDigest challenge a, Inr (200, token))],
            Inr (Opened \<lparr>endpoint = \<lparr>protocol = protocol (lastOrderUrl a),
                                       host = host (lastOrderUrl a),
                                       pathname = ''/misaka'', query = [(''token'', token)]\<rparr>,
                           reconnection = False, multiplex = False,
                           transports = [''websocket'', ''polling'']\<rparr>))"
  using assms
  by (simp add: tryLogin_def makeUrl_def challenge_request_def login_request_def Let_def)

lemma request_cases:
  obtains (failed) "request_failed r" | (ok) body where "r = Inr (200, body)"
  by (cases r) (auto simp: request_failed_def)

text \<open>
  Claim C7. One call of \<^verbatim>\<open>tryLogin\<close> for the remote service \<open>srv\<close> reports an error exactly
  when no socket is stored and the challenge request, or after a challenge the login
  request, meets a transport error or a status other than 200. When both requests return
  200, it reports a socket opened on the path \<^verbatim>\<open>/misaka\<close> of the service with the body of the
  login response as the query parameter \<^verbatim>\<open>token\<close>, neither reconnecting nor multiplexed. The
  requests made are the challenge request and, after a challenge, the login request for
  it, in this order, and what is recorded for each is the answer of the service. (With a
  socket stored, \<^verbatim>\<open>tryLogin\<close> makes no request and reports that socket.)
\<close>

theorem tryLogin_fails_iff:
  "(isl (snd (tryLogin strDigest ts srv a)) \<longleftrightarrow>
       socket a = None
     \<and> (request_failed (srv (challenge_request strDigest ts a))
        \<or> (\<exists>challenge. srv (challenge_request strDigest ts a) = Inr (200, challenge)
              \<and> request_failed (srv (login_request strDigest challenge a)))))
   \<and> (\<forall>challenge token.
        socket a = None
        \<and> srv (challenge_request strDigest ts a) = Inr (200, challenge)
        \<and> srv (login_request strDigest challenge a) = Inr (200, token)
        \<longrightarrow> tryLogin strDigest ts srv a =
              ([(challenge_request strDigest ts a, Inr (200, challenge)),
                (login_request strDigest challenge a, Inr (200, token))],
               Inr (Opened \<lparr>endpoint = \<lparr>protocol = protocol (lastOrderUrl a),
                                          host = host (lastOrderUrl a),
                                          pathname = ''/misaka'', query = [(''token'', token)]\<rparr>,
                              reconnection = False, multiplex = False,
                              transports = [''websocket'', ''polling'']\<rparr>)))
   \<and> map fst (fst (tryLogin strDigest ts srv a))
       = (if socket a \<noteq> None then []
          else challenge_request strDigest ts a #
               (case srv (challenge_request strDigest ts a) of
                  Inl err \<Rightarrow> []
                | Inr (status, challenge) \<Rightarrow>
                    if status = 200 then [login_request strDigest challenge a] else []))
   \<and> (\<forall>p \<in> set (fst (tryLogin strDigest ts srv a)). snd p = srv (fst p))"
proof (cases "socket a")
  case (Some k)
  then show ?thesis by (simp add: tryLogin_existing)
next
  case None
  let ?r1 = "srv (challenge_request strDigest ts a)"
  show ?thesis
  proof (cases ?r1 rule: request_cases)
    case failed
    from tryLogin_challenge_failed [of a srv strDigest ts, OF None failed] failed None show ?thesis
      by (auto simp: request_failed_def split: sum.splits prod.splits)
  next
    case (ok challenge)
    then have nf: "\<not> request_failed ?r1" by (simp add: request_failed_def)
    let ?r2 = "srv (login_request strDigest challenge a)"
    show ?thesis
    proof (cases ?r2 rule: request_cases)
      case failed
      from tryLogin_login_failed [of a srv strDigest ts challenge, OF None ok failed] failed None ok nf show ?thesis
        by (auto simp: request_failed_def)
    next
      case (ok token)
      then have nf2: "\<not> request_failed ?r2" by (simp add: request_failed_def)
      from tryLogin_succeeds [of a srv strDigest ts challenge token, OF None \<open>?r1 = Inr (200, challenge)\<close> ok]
        None \<open>?r1 = Inr (200, challenge)\<close> ok nf nf2 show ?thesis
        by auto
    qed
  qed
qed

theorem tryLogin_fails_iff_witness:
  "socket ex_app = None
   \<and> isl (snd (tryLogin ex_digest ''7'' (\<lambda>req. Inl ''ECONNREFUSED'') ex_app))
   \<and> isl (snd (tryLogin ex_digest ''7''
              (\<lambda>req. case req of Post u form \<Rightarrow>
                 if pathname u = ''/challenge'' then Inr (200, ''c1'') else Inr (403, ''denied''))
              ex_app))
   \<and> tryLogin ex_digest ''7'' (\<lambda>req. Inr (200, ''abc'')) ex_app
     = ([(Post \<lparr>protocol = ''http:'', host = ''lo:80'', pathname = ''/challenge'', query = []\<rparr>
            [(''node'', ''misaka1''), (''ts'', ''7''), (''sig'', ''7&misaka1s'')], Inr (200, ''abc'')),
         (Post \<lparr>protocol = ''http:'', host = ''lo:80'', pathname = ''/login'', query = []\<rparr>
            [(''challenge'', ''abc''), (''node'', ''misaka1''), (''sig'', ''abc&misaka1s'')],
          Inr (200, ''abc''))],
        Inr (Opened \<lparr>endpoint = \<lparr>protocol = ''http:'', host = ''lo:80'', pathname = ''/misaka'',
                                   query = [(''token'', ''abc'')]\<rparr>,
                       reconnection = False, multiplex = False,
                       transports = [''websocket'', ''polling'']\<rparr>))"
proof -
  let ?refused = "\<lambda>req::http_request. (Inl ''ECONNREFUSED'' :: http_result)"
  let ?denied = "\<lambda>req. case req of Post u form \<Rightarrow>
                   if pathname u = ''/challenge'' then (Inr (200, ''c1'') :: http_result)
                   else Inr (403, ''denied'')"
  let ?ok = "\<lambda>req::http_request. (Inr (200, ''abc'') :: http_result)"
  have so: "socket ex_app = None" by (simp add: ex_app_def App_def)
  have f1: "request_failed (?refused (challenge_request ex_digest ''7'' ex_app))"
    by (simp add: request_failed_def)
  have f2: "?denied (challenge_request ex_digest ''7'' ex_app) = Inr (200, ''c1'')"
    "request_failed (?denied (login_request ex_digest ''c1'' ex_app))"
    by (simp_all add: request_failed_def challenge_request_def login_request_def)
  from tryLogin_fails_iff [of ex_digest "''7''" ?refused ex_app] so f1
  have 1: "isl (snd (tryLogin ex_digest ''7'' ?refused ex_app))" by blast
  from tryLogin_fails_iff [of ex_digest "''7''" ?denied ex_app] so f2
  have 2: "isl (snd (tryLogin ex_digest ''7'' ?denied ex_app))" by blast
  from tryLogin_fails_iff [of ex_digest "''7''" ?ok ex_app] so
  have "tryLogin ex_digest ''7'' ?ok ex_app =
              ([(challenge_request ex_digest ''7'' ex_app, Inr (200, ''abc'')),
                (login_request ex_digest ''abc'' ex_app, Inr (200, ''abc''))],
               Inr (Opened \<lparr>endpoint = \<lparr>protocol = protocol (lastOrderUrl ex_app),
                                          host = host (lastOrderUrl ex_app),
                                          pathname = ''/misaka'', query = [(''token'', ''abc'')]\<rparr>,
                              reconnection = False, multiplex = False,
                              transports = [''websocket'', ''polling'']\<rparr>))"
    by blast
  then have 3: "tryLogin ex_digest ''7'' ?ok ex_app
     = ([(Post \<lparr>protocol = ''http:'', host = ''lo:80'', pathname = ''/challenge'', query = []\<rparr>
            [(''node'', ''misaka1''), (''ts'', ''7''), (''sig'', ''7&misaka1s'')], Inr (200, ''abc'')),
         (Post \<lparr>protocol = ''http:'', host = ''lo:80'', pathname = ''/login'', query = []\<rparr>
            [(''challenge'', ''abc''), (''node'', ''misaka1''), (''sig'', ''abc&misaka1s'')],
          Inr (200, ''abc''))],
        Inr (Opened \<lparr>endpoint = \<lparr>protocol = ''http:'', host = ''lo:80'', pathname = ''/misaka'',
                                   query = [(''token'', ''abc'')]\<rparr>,
                       reconnection = False, multiplex = False,
                       transports = [''websocket'', ''polling'']\<rparr>))"
    by (simp add: challenge_request_def login_request_def ex_app_def ex_digest_def App_def)
  from so 1 2 3 show ?thesis by blast
qed

subsection \<open>The sending queue\<close>

declare flush.simps [simp del] login.simps [simp del]


lemma payloads_append: "payloads (p @ q) = payloads p @ payloads q"
proof (induction p)
  case Nil
  then show ?case by simp
next
  case (Cons d p)
  then show ?case by (cases d) simp_all
qed

lemma sent_append: "sent (evs @ evs') = sent evs @ sent evs'"
  by (induction evs rule: sent.induct) simp_all

lemma tryLogin_new:
  "socket a = None \<Longrightarrow> snd (tryLogin sd ts srv a) \<noteq> Inr (Existing k)"
  by (auto simp: tryLogin_def Let_def split: sum.splits prod.splits)

lemma App_idle: "idle (App n base secret)"
  by (simp add: idle_def App_def)

lemma idle_waiting: "idle a0 \<Longrightarrow> waiting_inv a0 a0 []"
  by (simp add: waiting_inv_def idle_def)

lemma waiting_send:
  assumes "waiting_inv a0 a msgs"
  shows "waiting_inv a0 (send args a) (msgs @ [args])"
proof (cases "socket a")
  case None
  with assms show ?thesis
    by (auto simp: waiting_inv_def send_def scheduleFlush_def payloads_append)
next
  case (Some k)
  with assms show ?thesis
    by (auto simp: waiting_inv_def send_def scheduleFlush_def payloads_append)
qed

lemma waiting_connect:
  assumes "waiting_inv a0 a msgs"
  shows "waiting_inv a0 (connect a) msgs"
proof (cases "socket a")
  case None
  with assms show ?thesis
    by (auto simp: waiting_inv_def connect_def scheduleFlush_def payloads_append)
next
  case (Some k)
  with assms show ?thesis
    by (auto simp: waiting_inv_def connect_def scheduleFlush_def payloads_append)
qed

lemma waiting_immediate:
  assumes "waiting_inv a0 a msgs" and "immediates a \<noteq> 0"
  shows "waiting_inv a0 (flush (a\<lparr>immediates := immediates a - 1\<rparr>)) msgs"
proof -
  from assms have so: "socket a = None"
    by (cases "socket a") (auto simp: waiting_inv_def)
  with assms have b: "length (http_pending a) + length (retry_pending a) + immediates a \<le> 1"
    by (simp add: waiting_inv_def)
  with assms(2) have "length (http_pending a) = 0 \<and> length (retry_pending a) = 0 \<and> immediates a = 1"
    by arith
  then have e: "http_pending a = []" "retry_pending a = []" "immediates a = 1" by simp_all
  show ?thesis
  proof (cases "sendingQueue a = []")
    case True
    with assms so e show ?thesis by (simp add: flush.simps waiting_inv_def)
  next
    case False
    with assms so e show ?thesis
      by (simp add: flush.simps login.simps tryLogin_start_def waiting_inv_def)
  qed
qed

lemma waiting_http:
  assumes "waiting_inv a0 a msgs" and "http_pending a = queue # rest"
  shows "socket a = None" "rest = []" "retry_pending a = []" "immediates a = 0"
proof -
  from assms show so: "socket a = None"
    by (cases "socket a") (auto simp: waiting_inv_def)
  with assms have "length (http_pending a) + length (retry_pending a) + immediates a \<le> 1"
    by (simp add: waiting_inv_def)
  with assms(2) have "length rest = 0 \<and> length (retry_pending a) = 0 \<and> immediates a = 0"
    by simp
  then show "rest = []" "retry_pending a = []" "immediates a = 0" by simp_all
qed

lemma waiting_tryLogin_done:
  assumes "waiting_inv a0 a msgs" and "http_pending a = queue # rest"
  shows "waiting_inv a0 (login_cb queue (snd (tryLogin sd ts srv (a\<lparr>socket := None\<rparr>)))
                            (a\<lparr>http_pending := rest\<rparr>)) msgs"
proof -
  note w = waiting_http [OF assms]
  let ?r = "snd (tryLogin sd ts srv (a\<lparr>socket := None\<rparr>))"
  show ?thesis
  proof (cases ?r)
    case (Inl err)
    with assms w show ?thesis by (simp add: login_cb_def waiting_inv_def)
  next
    case (Inr ls)
    show ?thesis
    proof (cases ls)
      case (Existing k)
      with Inr tryLogin_new [of "a\<lparr>socket := None\<rparr>" sd ts srv k] show ?thesis by simp
    next
      case (Opened so)
      with Inr assms w show ?thesis by (simp add: login_cb_def waiting_inv_def)
    qed
  qed
qed

lemma waiting_retry:
  assumes "waiting_inv a0 a msgs" and "retry_pending a = queue # rest"
  shows "waiting_inv a0 (tryLogin_start queue (a\<lparr>retry_pending := rest\<rparr>)) msgs"
proof -
  from assms have so: "socket a = None"
    by (cases "socket a") (auto simp: waiting_inv_def)
  with assms have "length (http_pending a) + length (retry_pending a) + immediates a \<le> 1"
    by (simp add: waiting_inv_def)
  with assms(2) have "length (http_pending a) = 0 \<and> length rest = 0 \<and> immediates a = 0"
    by simp
  then have e: "http_pending a = []" "rest = []" "immediates a = 0" by simp_all
  with assms so show ?thesis by (simp add: tryLogin_start_def waiting_inv_def)
qed

lemma waiting_step:
  assumes "waiting_inv a0 a msgs" and "\<not> socket_event ev" and "step sd ev a = Some a'"
  shows "waiting_inv a0 a' (msgs @ sent [ev])"
proof (cases ev)
  case (Send args)
  with assms waiting_send show ?thesis by (auto split: if_splits)
next
  case Connect
  with assms waiting_connect show ?thesis by (auto split: if_splits)
next
  case Immediate
  with assms waiting_immediate show ?thesis by (auto split: if_splits)
next
  case (TryLoginDone ts srv)
  with assms waiting_tryLogin_done show ?thesis by (auto split: if_splits list.splits)
next
  case RetryTimeout
  with assms waiting_retry show ?thesis by (auto split: if_splits list.splits)
next
  case (SocketConnect k)
  with assms show ?thesis by simp
next
  case (SocketDisconnect k)
  with assms show ?thesis by simp
qed

lemma waiting_run:
  "waiting_inv a0 a msgs \<Longrightarrow> \<forall>ev\<in>set evs. \<not> socket_event ev \<Longrightarrow> run sd evs a = Some a' \<Longrightarrow>
     waiting_inv a0 a' (msgs @ sent evs)"
proof (induction evs arbitrary: a msgs)
  case Nil
  then show ?case by simp
next
  case (Cons ev evs)
  from Cons.prems(3) obtain a1 where a1: "step sd ev a = Some a1" "run sd evs a1 = Some a'"
    by (auto split: option.splits)
  from Cons.prems(2) have ne: "\<not> socket_event ev" "\<forall>e\<in>set evs. \<not> socket_event e" by auto
  from waiting_step [OF Cons.prems(1) ne(1) a1(1)] have "waiting_inv a0 a1 (msgs @ sent [ev])" .
  from Cons.IH [OF this ne(2) a1(2)] sent_append [of "[ev]" evs] show ?case by simp
qed

lemma waiting_connected:
  assumes "waiting_inv a0 a msgs" and "socket a = Some k"
    and "step sd (SocketConnect k) a = Some a'"
  shows "emitted a' = emitted a0 @ map (Pair k) msgs \<and> sendingQueue a' = [] \<and> \<not> sending a'
       \<and> connected a' \<and> socket a' = Some k \<and> handled a' = handled a @ [k]"
proof -
  from assms(1,2) obtain q where h: "handlers a = handlers a0 @ [(k, q)]"
      "payloads (q @ sendingQueue a) = msgs" "k = next_socket a0" "emitted a = emitted a0"
    by (auto simp: waiting_inv_def)
  from assms(1) have "\<forall>h\<in>set (handlers a0). fst h < next_socket a0" by (simp add: waiting_inv_def)
  with h(3) have "filter (\<lambda>h. fst h = k) (handlers a0) = []"
    by (auto simp: filter_empty_conv)
  with h(1) have f: "map snd (filter (\<lambda>h. fst h = k) (handlers a)) = [q]" by simp
  from assms(3) f have a': "a' = on_connect k q a" by (auto split: if_splits)
  show ?thesis
  proof (cases "sendingQueue a = []")
    case True
    with a' h assms(2) show ?thesis by (auto simp: on_connect_def flush.simps)
  next
    case False
    with a' h assms(2) show ?thesis
      by (auto simp: on_connect_def flush.simps login.simps payloads_append)
  qed
qed

lemma dropped_idle:
  assumes "connected a" and "\<not> crashed a" and "sendingQueue a = []" and "\<not> sending a"
    and "immediates a = 0" and "http_pending a = []" and "retry_pending a = []"
    and "\<forall>h\<in>set (handlers a). fst h < next_socket a"
  shows "idle (a\<lparr>socket := None, connected := False\<rparr>)"
    and "on_disconnect a = connect (a\<lparr>socket := None, connected := False\<rparr>)"
  using assms by (simp_all add: idle_def on_disconnect_def)

text \<open>
  Claim C4. From an app without a connection and at rest (a new app, or one whose socket
  has dropped), let any events happen that are not events of a socket: calls of \<^verbatim>\<open>send\<close>
  and \<^verbatim>\<open>connect\<close>, flushes, login attempts that fail or succeed, retries. Nothing is
  emitted meanwhile. When the socket that a login has stored then connects, the argument
  arrays of the calls of \<^verbatim>\<open>send\<close> are emitted on it in the order of the calls, each once
  and nothing else (the null entries of \<^verbatim>\<open>connect\<close> emit nothing), and the queue is left
  empty with \<^verbatim>\<open>_sending\<close> cleared.
\<close>

theorem queued_sends_in_order:
  assumes "idle a0"
    and "run strDigest evs a0 = Some a"
    and "\<forall>ev\<in>set evs. \<not> socket_event ev"
    and "socket a = Some k"
    and "step strDigest (SocketConnect k) a = Some a'"
  shows "emitted a = emitted a0 \<and> emitted a' = emitted a0 @ map (Pair k) (sent evs)
       \<and> sendingQueue a' = [] \<and> \<not> sending a' \<and> connected a' \<and> socket a' = Some k"
proof -
  from waiting_run [OF idle_waiting [OF assms(1)] assms(3,2)]
  have w: "waiting_inv a0 a (sent evs)" by simp
  then have "emitted a = emitted a0" by (simp add: waiting_inv_def)
  with waiting_connected [OF w assms(4,5)] show ?thesis by simp
qed


lemmas ex_app_defs = ex_app_def ex_digest_def ex_events_def App_def send_def connect_def
  scheduleFlush_def flush.simps login.simps tryLogin_start_def login_cb_def tryLogin_def
  makeUrl_def on_connect_def Let_def


theorem queued_sends_in_order_witness:
  "idle ex_app
   \<and> list_all (\<lambda>ev. \<not> socket_event ev) ex_events
   \<and> map_option socket (run ex_digest ex_events ex_app) = Some (Some 0)
   \<and> map_option emitted (run ex_digest ex_events ex_app) = Some []
   \<and> map_option emitted
       (Option.bind (run ex_digest ex_events ex_app) (step ex_digest (SocketConnect 0)))
     = Some [(0, [Val ''log'', Val ''one'']), (0, [Val ''log'', Val ''two'']),
             (0, [Val ''log'', Val ''three'', Fn 1])]"
proof -
  have i: "idle ex_app" unfolding ex_app_def by (rule App_idle)
  have "\<exists>a. run ex_digest ex_events ex_app = Some a \<and> socket a = Some 0
          \<and> (\<exists>a'. step ex_digest (SocketConnect 0) a = Some a')"
    by (simp add: ex_app_defs)
  then obtain a a' where ra: "run ex_digest ex_events ex_app = Some a"
    and so: "socket a = Some 0"
    and st: "step ex_digest (SocketConnect 0) a = Some a'" by blast
  have ns: "\<forall>ev\<in>set ex_events. \<not> socket_event ev" by (simp add: ex_events_def)
  have e0: "emitted ex_app = []" by (simp add: ex_app_def App_def)
  from queued_sends_in_order [OF i ra ns so st] e0
  have "emitted a = [] \<and> emitted a' = map (Pair 0) (sent ex_events)" by simp
  with i ra so st ns show ?thesis by (simp add: ex_events_def)
qed

end
